theory Spec2Isabelle
  imports Complex_Main "HOL-Library.AList" "HOL-Library.Sublist" "HOL-Library.Multiset"
begin

section \<open>Data model\<close>

text \<open>
  The types of \<^verbatim>\<open>@/types\<close>. A JavaScript string is modelled as a \<^typ>\<open>string\<close>; an optional
  or nullable field as an \<^typ>\<open>'a option\<close>, \<^term>\<open>None\<close> standing for both \<^verbatim>\<open>undefined\<close>
  and \<^verbatim>\<open>null\<close>.
\<close>

record NetflixViewingItem =
  title :: string
  date :: string
  rawTitle :: "string option"
  rawDate :: "string option"

record MediaItem =
  item_id :: string
  item_title :: string
  item_type :: string
  posterPath :: "string option"
  backdropPath :: "string option"
  overview :: "string option"
  releaseDate :: "string option"
  firstAirDate :: "string option"
  lastAirDate :: "string option"
  status :: "string option"
  continuing :: "bool option"
  watchedDate :: string
  voteAverage :: "real option"
  watchCount :: "nat option"

text \<open>
  One entry of \<^verbatim>\<open>searchResult.results\<close>, as far as the pipeline reads it.
  \<^verbatim>\<open>result.id\<close> is only ever interpolated into strings, so it is kept as the string it
  renders to; \<open>title_or_name\<close> is the value of \<^verbatim>\<open>result.title || result.name\<close>, which
  the source stores in the string field \<^verbatim>\<open>MediaItem.title\<close>.
\<close>

record TmdbResult =
  result_id :: string
  media_type :: "string option"
  title_or_name :: string
  poster_path :: "string option"
  backdrop_path :: "string option"
  result_overview :: "string option"
  release_date :: "string option"
  first_air_date :: "string option"
  last_air_date :: "string option"
  vote_average :: "real option"

text \<open>
  What the pipeline takes from outside itself. The catalog service is reached over the
  network, one request at a time: \<^verbatim>\<open>searchMedia\<close> answers with \<^verbatim>\<open>results\<close>, which
  are empty when nothing matches and also whenever the request fails, and
  \<^verbatim>\<open>getTVShowDetails\<close> answers with \<^term>\<open>None\<close> for \<^verbatim>\<open>null\<close>, its answer to a
  failed request, and otherwise with the \<^verbatim>\<open>status\<close> field of the details. The same
  query can therefore be answered differently from one request to the next. A run sends
  at most one request of each kind for each record, so a request is named by the position
  of its record in the viewing history: \<open>searchMedia e n q\<close> is the answer to the search
  for \<open>q\<close> that the record at position \<open>n\<close> sends, and likewise for the details. The
  regular expressions of \<^verbatim>\<open>cleanTitle\<close> and the runtime's \<^verbatim>\<open>Date\<close> and string
  built-ins depend on Unicode tables and on the engine's date parser, so they are
  parameters as well, and everything proved below holds whatever they compute:
  \<open>parseDate s\<close> is \<^verbatim>\<open>new Date(s).getTime()\<close>, with \<^term>\<open>None\<close> for \<^verbatim>\<open>NaN\<close>.
\<close>

record env =
  searchMedia :: "nat \<Rightarrow> string \<Rightarrow> TmdbResult list"
  getTVShowDetails :: "nat \<Rightarrow> string \<Rightarrow> string option option"
  cleanTitle :: "string \<Rightarrow> string"
  parseDate :: "string \<Rightarrow> int option"
  toISOString :: "int \<Rightarrow> string"
  toLowerCase :: "string \<Rightarrow> string"

definition TMDB_IMG_URL :: string where
  "TMDB_IMG_URL = ''https://image.tmdb.org/t/p''"

definition POSTER_SIZE :: string where
  "POSTER_SIZE = ''w342''"

definition BACKDROP_SIZE :: string where
  "BACKDROP_SIZE = ''w1280''"

text \<open>JavaScript truthiness of an optional string: present and not empty.\<close>

definition truthy :: "string option \<Rightarrow> bool" where
  "truthy s = (case s of None \<Rightarrow> False | Some v \<Rightarrow> v \<noteq> [])"

text \<open>\<^verbatim>\<open>new Date(a) > new Date(b)\<close>: false as soon as one side is an invalid date.\<close>

definition dateGreater :: "env \<Rightarrow> string \<Rightarrow> string \<Rightarrow> bool" where
  "dateGreater e a b =
     (case (parseDate e a, parseDate e b) of
        (Some x, Some y) \<Rightarrow> y < x
      | _ \<Rightarrow> False)"

section \<open>The merge store\<close>

text \<open>
  A JavaScript \<^verbatim>\<open>Map<string, MediaItem>\<close> keeps its entries in insertion order, and
  \<^verbatim>\<open>set\<close> on a present key replaces the value in place: an association list with
  \<^const>\<open>AList.update\<close>.
\<close>

type_synonym mediaMap = "(string \<times> MediaItem) list"

definition mapHas :: "mediaMap \<Rightarrow> string \<Rightarrow> bool" where
  "mapHas m k = (map_of m k \<noteq> None)"

definition mapSet :: "string \<Rightarrow> MediaItem \<Rightarrow> mediaMap \<Rightarrow> mediaMap" where
  "mapSet k v m = AList.update k v m"

definition mapValues :: "mediaMap \<Rightarrow> MediaItem list" where
  "mapValues m = map snd m"

text \<open>\<^verbatim>\<open>result.media_type || (result.first_air_date ? 'tv' : 'movie')\<close>\<close>

definition mediaTypeOf :: "TmdbResult \<Rightarrow> string" where
  "mediaTypeOf result =
     (if truthy (media_type result) then the (media_type result)
      else if truthy (first_air_date result) then ''tv'' else ''movie'')"

text \<open>
  \<^verbatim>\<open>createMediaItem\<close>, called for the record at position \<open>n\<close>; it asks for the
  details of a series only.
\<close>

definition createMediaItem :: "env \<Rightarrow> nat \<Rightarrow> TmdbResult \<Rightarrow> string \<Rightarrow> MediaItem" where
  "createMediaItem e n result wd =
     (let mediaType = mediaTypeOf result;
          tvDetails = (if mediaType = ''tv'' then getTVShowDetails e n (result_id result) else None);
          st = (case tvDetails of None \<Rightarrow> Some [] | Some s \<Rightarrow> s);
          cont = (case tvDetails of None \<Rightarrow> False
                  | Some s \<Rightarrow> s \<in> {Some ''Returning Series'', Some ''In Production''})
      in \<lparr> item_id = result_id result,
           item_title = title_or_name result,
           item_type = mediaType,
           posterPath = (if truthy (poster_path result)
                         then Some (TMDB_IMG_URL @ ''/'' @ POSTER_SIZE @ the (poster_path result))
                         else None),
           backdropPath = (if truthy (backdrop_path result)
                           then Some (TMDB_IMG_URL @ ''/'' @ BACKDROP_SIZE @ the (backdrop_path result))
                           else None),
           overview = (if truthy (result_overview result) then result_overview result else None),
           releaseDate = release_date result,
           firstAirDate = first_air_date result,
           lastAirDate = last_air_date result,
           status = st,
           continuing = Some cont,
           watchedDate = wd,
           voteAverage = vote_average result,
           watchCount = Some 1 \<rparr>)"

definition createMinimalMediaItem :: "string \<Rightarrow> string \<Rightarrow> MediaItem" where
  "createMinimalMediaItem t wd =
     \<lparr> item_id = ''unknown-'' @ t,
       item_title = t,
       item_type = ''movie'',
       posterPath = None,
       backdropPath = None,
       overview = None,
       releaseDate = None,
       firstAirDate = None,
       lastAirDate = None,
       status = None,
       continuing = None,
       watchedDate = wd,
       voteAverage = None,
       watchCount = Some 1 \<rparr>"

text \<open>\<^verbatim>\<open>(existingItem.watchCount || 1) + 1\<close>: an absent or zero count reads as 1.\<close>

definition bumpCount :: "nat option \<Rightarrow> nat" where
  "bumpCount c = (case c of None \<Rightarrow> 1 | Some n \<Rightarrow> if n = 0 then 1 else n) + 1"

definition touchItem :: "env \<Rightarrow> string \<Rightarrow> MediaItem \<Rightarrow> MediaItem" where
  "touchItem e wd existingItem =
     existingItem \<lparr> watchCount := Some (bumpCount (watchCount existingItem)),
                    watchedDate := (if dateGreater e wd (watchedDate existingItem)
                                    then wd else watchedDate existingItem) \<rparr>"

text \<open>
  \<^verbatim>\<open>updateExistingMediaItem\<close> mutates the stored object. On an absent key the source
  would raise inside \<^verbatim>\<open>processViewingItem\<close>'s \<^verbatim>\<open>try\<close>, which swallows the error:
  the store stays as it is.
\<close>

definition updateExistingMediaItem :: "env \<Rightarrow> mediaMap \<Rightarrow> string \<Rightarrow> string \<Rightarrow> mediaMap" where
  "updateExistingMediaItem e m key wd =
     (case map_of m key of
        None \<Rightarrow> m
      | Some existingItem \<Rightarrow> mapSet key (touchItem e wd existingItem) m)"

section \<open>Enriching one record\<close>

text \<open>
  \<^verbatim>\<open>processViewingItem\<close> is an \<^verbatim>\<open>async\<close> function with two suspension points.
  It first awaits \<^verbatim>\<open>searchMedia\<close>. The function below, for the record at position
  \<open>n\<close>, is what runs when that promise resolves: it picks the first result, computes the
  key and tests \<^verbatim>\<open>mediaMap.has(key)\<close>.
  Either the record is finished there (an update of the stored item, or the minimal item
  of an unmatched title), or the function suspends a second time at
  \<^verbatim>\<open>await createMediaItem(result, item.date)\<close> and returns the key and the item that
  \<^verbatim>\<open>mediaMap.set\<close> will store once that promise resolves.
\<close>

definition processViewingItem ::
  "env \<Rightarrow> nat \<Rightarrow> NetflixViewingItem \<Rightarrow> mediaMap \<Rightarrow> (string \<times> MediaItem) option \<times> mediaMap" where
  "processViewingItem e n item m =
     (let cleanedTitle = cleanTitle e (title item);
          searchResult = searchMedia e n cleanedTitle
      in case searchResult of
           result # _ \<Rightarrow>
             (let mediaType = mediaTypeOf result;
                  key = result_id result @ ''-'' @ mediaType
              in if mapHas m key
                 then (None, updateExistingMediaItem e m key (date item))
                 else (Some (key, createMediaItem e n result (date item)), m))
         | [] \<Rightarrow>
             (let key = ''unknown-'' @ title item
              in if \<not> mapHas m key
                 then (None, mapSet key (createMinimalMediaItem (title item) (date item)) m)
                 else (None, updateExistingMediaItem e m key (date item))))"

text \<open>
  A record together with its position in the viewing history, and the promise of one
  record: waiting for its search, waiting for its \<^verbatim>\<open>createMediaItem\<close> with the pending
  \<^verbatim>\<open>set\<close>, or settled.
\<close>

type_synonym request = "nat \<times> NetflixViewingItem"

datatype task = Searching request | Creating string MediaItem | Settled

fun stepTask :: "env \<Rightarrow> task \<Rightarrow> mediaMap \<Rightarrow> task \<times> mediaMap" where
  "stepTask e (Searching (n, item)) m =
     (case processViewingItem e n item m of
        (None, m') \<Rightarrow> (Settled, m')
      | (Some (key, mediaItem), m') \<Rightarrow> (Creating key mediaItem, m'))"
| "stepTask e (Creating key mediaItem) m = (Settled, mapSet key mediaItem m)"
| "stepTask e Settled m = (Settled, m)"

section \<open>A batch\<close>

text \<open>
  \<^verbatim>\<open>processBatch\<close> starts every record of the batch and awaits them all
  (\<^verbatim>\<open>Promise.all\<close>). The promises are resumed one at a time, in an order the network
  decides: the list \<open>order\<close> names, step by step, the record whose pending promise is
  resumed next (a name outside the batch, or of a settled record, resumes nothing).
  Whatever is still pending when the list ends is then resumed record by record in batch
  order, twice each, which settles it; so the empty list is the run without interleaving,
  and every interleaving is some list. The batch that starts at index \<open>i\<close> of the viewing
  history holds the records at the positions \<open>i\<close>, \<open>i + 1\<close>, and so on.
\<close>

type_synonym stepper = "task \<Rightarrow> mediaMap \<Rightarrow> task \<times> mediaMap"

fun runSchedule :: "stepper \<Rightarrow> nat list \<Rightarrow> task list \<Rightarrow> mediaMap \<Rightarrow> task list \<times> mediaMap" where
  "runSchedule step [] ts m = (ts, m)"
| "runSchedule step (j # js) ts m =
     (if j < length ts
      then (case step (ts ! j) m of (t', m') \<Rightarrow> runSchedule step js (ts[j := t']) m')
      else runSchedule step js ts m)"

text \<open>Every record of a batch of \<open>n\<close>, in batch order, each named twice.\<close>

definition inBatchOrder :: "nat \<Rightarrow> nat list" where
  "inBatchOrder n = concat (map (\<lambda>j. [j, j]) [0..<n])"

definition awaitAll :: "stepper \<Rightarrow> nat list \<Rightarrow> request list \<Rightarrow> mediaMap \<Rightarrow> mediaMap" where
  "awaitAll step order batch m =
     snd (runSchedule step (order @ inBatchOrder (length batch)) (map Searching batch) m)"

definition processBatch ::
  "env \<Rightarrow> nat list \<Rightarrow> nat \<Rightarrow> NetflixViewingItem list \<Rightarrow> mediaMap \<Rightarrow> mediaMap" where
  "processBatch e order i batch m = awaitAll (stepTask e) order (enumerate i batch) m"

text \<open>\<^verbatim>\<open>s.includes(t)\<close>: \<open>t\<close> occurs in \<open>s\<close> as a contiguous run.\<close>

fun str_includes :: "string \<Rightarrow> string \<Rightarrow> bool" where
  "str_includes [] t = (t = [])"
| "str_includes (c # s) t = (prefix t (c # s) \<or> str_includes s t)"

text \<open>The items \<^verbatim>\<open>reportProcessedItem\<close> hands to the discovery callback, in order.\<close>

definition reportProcessedItem :: "env \<Rightarrow> mediaMap \<Rightarrow> NetflixViewingItem list \<Rightarrow> MediaItem list" where
  "reportProcessedItem e m batchItems =
     concat (map (\<lambda>batchItem.
        filter (\<lambda>mediaItem.
           (str_includes (toLowerCase e (item_title mediaItem))
                     (toLowerCase e (cleanTitle e (title batchItem)))
            \<or> str_includes (toLowerCase e (cleanTitle e (title batchItem)))
                        (toLowerCase e (item_title mediaItem)))
           \<and> watchedDate mediaItem = date batchItem)
         (mapValues m)) batchItems)"

section \<open>Persistence and the cancellation flag\<close>

text \<open>
  The four \<^verbatim>\<open>localStorage\<close> keys of the processing checkpoint, each absent or holding
  the value that was serialised into it; writes are taken to succeed.
\<close>

record storage =
  iquit_viewing_history :: "NetflixViewingItem list option"
  iquit_processed_count :: "nat option"
  iquit_partial_items :: "MediaItem list option"
  iquit_processing_active :: "string option"

record state =
  processingCancelled :: bool
  localStorage :: storage

definition saveProcessingState ::
  "NetflixViewingItem list \<Rightarrow> nat \<Rightarrow> MediaItem list \<Rightarrow> state \<Rightarrow> state" where
  "saveProcessingState viewingHistory processedCount partialItems s =
     s \<lparr> localStorage :=
           \<lparr> iquit_viewing_history = Some viewingHistory,
             iquit_processed_count = Some processedCount,
             iquit_partial_items = Some partialItems,
             iquit_processing_active = Some ''true'' \<rparr> \<rparr>"

record processingState =
  ps_viewingHistory :: "NetflixViewingItem list option"
  ps_processedCount :: nat
  ps_partialItems :: "MediaItem list option"
  ps_isProcessing :: bool

definition loadProcessingState :: "state \<Rightarrow> processingState" where
  "loadProcessingState s =
     \<lparr> ps_viewingHistory = iquit_viewing_history (localStorage s),
       ps_processedCount = (case iquit_processed_count (localStorage s) of None \<Rightarrow> 0 | Some n \<Rightarrow> n),
       ps_partialItems = iquit_partial_items (localStorage s),
       ps_isProcessing = (iquit_processing_active (localStorage s) = Some ''true'') \<rparr>"

definition clearProcessingState :: "state \<Rightarrow> state" where
  "clearProcessingState s =
     s \<lparr> localStorage :=
           \<lparr> iquit_viewing_history = None,
             iquit_processed_count = None,
             iquit_partial_items = None,
             iquit_processing_active = None \<rparr> \<rparr>"

definition completeProcessing :: "state \<Rightarrow> state" where
  "completeProcessing s =
     s \<lparr> localStorage := (localStorage s) \<lparr> iquit_processing_active := None \<rparr> \<rparr>"

definition cancelProcessing :: "state \<Rightarrow> state" where
  "cancelProcessing s = clearProcessingState (s \<lparr> processingCancelled := True \<rparr>)"

definition resetCancellation :: "state \<Rightarrow> state" where
  "resetCancellation s = s \<lparr> processingCancelled := False \<rparr>"

section \<open>The batch loop\<close>

text \<open>
  The host, as far as a run can observe it: the order in which the pending promises of
  the batch starting at index \<open>i\<close> are resumed, whether it calls
  \<^verbatim>\<open>cancelProcessing\<close> while that batch is awaited or while the loop pauses after it
  (the zero-delay yield and the 500 ms pacing delay), and whether it passed the two
  optional callbacks. Calls of the callbacks and of \<^verbatim>\<open>cancelProcessing\<close> are recorded
  in a trace.
\<close>

record host =
  resolveOrder :: "nat \<Rightarrow> nat list"
  cancelDuringBatch :: "nat \<Rightarrow> bool"
  cancelAfterBatch :: "nat \<Rightarrow> bool"
  progressCallback :: bool
  onItemProcessed :: bool

datatype event = Progress nat nat | ItemProcessed MediaItem | CancelRequested

text \<open>\<^verbatim>\<open>const batchSize = 40\<close>\<close>

definition batchSize :: nat where
  "batchSize = 40"

text \<open>A point at which the host may call \<^verbatim>\<open>cancelProcessing\<close>, and whether it does.\<close>

definition hostCancels :: "bool \<Rightarrow> state \<times> event list \<Rightarrow> state \<times> event list" where
  "hostCancels b = (\<lambda>(s, tr). if b then (cancelProcessing s, tr @ [CancelRequested]) else (s, tr))"

text \<open>One pass through the body of the \<^verbatim>\<open>for\<close> loop, after the cancellation check.\<close>

definition batchIteration ::
  "env \<Rightarrow> host \<Rightarrow> NetflixViewingItem list \<Rightarrow> nat \<Rightarrow> nat \<Rightarrow>
   mediaMap \<times> state \<times> event list \<Rightarrow> mediaMap \<times> state \<times> event list" where
  "batchIteration e h viewingHistory startIndex i = (\<lambda>(m, s, tr).
     let batch = take batchSize (drop i viewingHistory);
         m1 = processBatch e (resolveOrder h i) i batch m;
         (s1, tr1) = hostCancels (cancelDuringBatch h i) (s, tr);
         tr2 = tr1 @ (if progressCallback h
                      then [Progress (i + length batch) (length viewingHistory)] else []);
         tr3 = tr2 @ (if onItemProcessed h \<and> 0 < length batch
                      then map ItemProcessed (reportProcessedItem e m1 batch) else []);
         s2 = (if i mod 10 = 0 \<and> startIndex < i
               then saveProcessingState viewingHistory i (mapValues m1) s1 else s1);
         pauses = (i mod 10 = 0 \<or> i + batchSize < length viewingHistory);
         (s3, tr4) = hostCancels (pauses \<and> cancelAfterBatch h i) (s2, tr3)
     in (m1, s3, tr4))"

function batchLoop ::
  "env \<Rightarrow> host \<Rightarrow> NetflixViewingItem list \<Rightarrow> nat \<Rightarrow> nat \<Rightarrow>
   mediaMap \<times> state \<times> event list \<Rightarrow> bool \<times> mediaMap \<times> state \<times> event list" where
  "batchLoop e h viewingHistory startIndex i c =
     (if i < length viewingHistory
      then (if processingCancelled (fst (snd c))
            then (True, c)
            else batchLoop e h viewingHistory startIndex (i + batchSize)
                   (batchIteration e h viewingHistory startIndex i c))
      else (False, fst c, completeProcessing (fst (snd c)), snd (snd c)))"
  by pat_completeness auto
termination
  by (relation "measure (\<lambda>(e, h, viewingHistory, startIndex, i, c). length viewingHistory - i)")
     (auto simp: batchSize_def)

declare batchLoop.simps [simp del]

text \<open>
  \<^verbatim>\<open>Array.prototype.sort\<close> is stable and reads a \<^verbatim>\<open>NaN\<close> from the comparator as 0:
  an element moves behind another one only when the comparator is positive. When every
  date parses, the two comparators used here are consistent and this is the order every
  engine returns. With a date that does not parse, the comparator by date is not
  consistent, the standard leaves the order to the engine, and \<open>sortBy\<close> is then one of
  the permitted orders, not necessarily the engine's: of a result sorted in that case
  only the items are meant, not their order.
\<close>

fun insertBy :: "('a \<Rightarrow> 'a \<Rightarrow> int option) \<Rightarrow> 'a \<Rightarrow> 'a list \<Rightarrow> 'a list" where
  "insertBy cmp x [] = [x]"
| "insertBy cmp x (y # ys) =
     (if (case cmp x y of None \<Rightarrow> False | Some d \<Rightarrow> 0 < d)
      then y # insertBy cmp x ys else x # y # ys)"

definition sortBy :: "('a \<Rightarrow> 'a \<Rightarrow> int option) \<Rightarrow> 'a list \<Rightarrow> 'a list" where
  "sortBy cmp xs = foldr (insertBy cmp) xs []"

text \<open>\<^verbatim>\<open>new Date(b.watchedDate).getTime() - new Date(a.watchedDate).getTime()\<close>\<close>

definition byWatchedDateDesc :: "env \<Rightarrow> MediaItem \<Rightarrow> MediaItem \<Rightarrow> int option" where
  "byWatchedDateDesc e a b =
     (case (parseDate e (watchedDate b), parseDate e (watchedDate a)) of
        (Some tb, Some ta) \<Rightarrow> Some (tb - ta)
      | _ \<Rightarrow> None)"

record processingResult =
  mediaItems :: "MediaItem list"
  cancelled :: bool

definition processViewingHistory ::
  "env \<Rightarrow> host \<Rightarrow> NetflixViewingItem list \<Rightarrow> nat \<Rightarrow> mediaMap option \<Rightarrow> state \<Rightarrow>
   processingResult \<times> state \<times> event list" where
  "processViewingHistory e h viewingHistory startIndex existingMediaMap s =
     (let s0 = resetCancellation s;
          mediaMap = (case existingMediaMap of None \<Rightarrow> [] | Some m \<Rightarrow> m)
      in case batchLoop e h viewingHistory startIndex startIndex (mediaMap, s0, []) of
           (c, m, s', tr) \<Rightarrow>
             (if c then (\<lparr> mediaItems = mapValues m, cancelled = True \<rparr>, s', tr)
              else (\<lparr> mediaItems = sortBy (byWatchedDateDesc e) (mapValues m),
                      cancelled = False \<rparr>, s', tr)))"

section \<open>The host's two entry points\<close>

text \<open>
  \<^verbatim>\<open>handleFileUpload\<close> clears the checkpoint, writes the initial one and starts a fresh
  run. \<^verbatim>\<open>loadSavedData\<close> finds an active checkpoint after a reload, rebuilds the store
  from \<^verbatim>\<open>partialItems\<close> under the key \<^verbatim>\<open>`${item.id}-${item.type}`\<close> and calls
  \<^verbatim>\<open>processViewingHistory\<close> with \<^verbatim>\<open>processedCount\<close> as the start index.
\<close>

definition handleFileUpload ::
  "env \<Rightarrow> host \<Rightarrow> NetflixViewingItem list \<Rightarrow> state \<Rightarrow> processingResult \<times> state \<times> event list" where
  "handleFileUpload e h history s =
     processViewingHistory e h history 0 None
       (saveProcessingState history 0 [] (clearProcessingState s))"

definition seedMediaMap :: "MediaItem list \<Rightarrow> mediaMap" where
  "seedMediaMap partialItems =
     foldl (\<lambda>m item. mapSet (item_id item @ ''-'' @ item_type item) item m) [] partialItems"

definition loadSavedData ::
  "env \<Rightarrow> host \<Rightarrow> state \<Rightarrow> (processingResult \<times> state \<times> event list) option" where
  "loadSavedData e h s =
     (let ps = loadProcessingState s
      in case ps_viewingHistory ps of
           None \<Rightarrow> None
         | Some viewingHistory \<Rightarrow>
             if 0 < length viewingHistory \<and> ps_isProcessing ps
             then Some (processViewingHistory e h viewingHistory (ps_processedCount ps)
                          (Some (seedMediaMap (case ps_partialItems ps of None \<Rightarrow> [] | Some its \<Rightarrow> its)))
                          s)
             else None)"

section \<open>Statistics\<close>

record StatsData =
  totalWatched :: nat
  movieCount :: nat
  tvCount :: nat
  watchedByDay :: "string \<rightharpoonup> nat"
  watchedByMonth :: "string \<rightharpoonup> nat"
  watchedByYear :: "string \<rightharpoonup> nat"
  mostWatchedShows :: "MediaItem list"
  continueWatchingShows :: "MediaItem list"

text \<open>\<^verbatim>\<open>toISOString\<close> raises a \<^verbatim>\<open>RangeError\<close> on an invalid date.\<close>

datatype error = RangeError

text \<open>\<^verbatim>\<open>counts[k] = (counts[k] || 0) + 1\<close>\<close>

definition increment :: "(string \<rightharpoonup> nat) \<Rightarrow> string \<Rightarrow> (string \<rightharpoonup> nat)" where
  "increment counts k = counts(k \<mapsto> (case counts k of None \<Rightarrow> 0 | Some n \<Rightarrow> n) + 1)"

type_synonym periodCounts = "(string \<rightharpoonup> nat) \<times> (string \<rightharpoonup> nat) \<times> (string \<rightharpoonup> nat)"

definition updateWatchCounts :: "env \<Rightarrow> MediaItem \<Rightarrow> periodCounts \<Rightarrow> error + periodCounts" where
  "updateWatchCounts e item = (\<lambda>(byDay, byMonth, byYear).
     case parseDate e (watchedDate item) of
       None \<Rightarrow> Inl RangeError
     | Some t \<Rightarrow>
         (let day = takeWhile (\<lambda>c. c \<noteq> CHR ''T'') (toISOString e t);
              month = take 7 day;
              year = take 4 day
          in Inr (increment byDay day, increment byMonth month, increment byYear year)))"

fun forEachItem :: "env \<Rightarrow> MediaItem list \<Rightarrow> periodCounts \<Rightarrow> error + periodCounts" where
  "forEachItem e [] acc = Inr acc"
| "forEachItem e (item # items) acc =
     (case updateWatchCounts e item acc of
        Inl err \<Rightarrow> Inl err
      | Inr acc' \<Rightarrow> forEachItem e items acc')"

definition calculateWatchCountsByPeriod :: "env \<Rightarrow> MediaItem list \<Rightarrow> error + periodCounts" where
  "calculateWatchCountsByPeriod e items = forEachItem e items (Map.empty, Map.empty, Map.empty)"

text \<open>\<^verbatim>\<open>(b.watchCount || 0) - (a.watchCount || 0)\<close>\<close>

definition byWatchCountDesc :: "MediaItem \<Rightarrow> MediaItem \<Rightarrow> int option" where
  "byWatchCountDesc a b =
     Some (int (case watchCount b of None \<Rightarrow> 0 | Some n \<Rightarrow> n)
           - int (case watchCount a of None \<Rightarrow> 0 | Some n \<Rightarrow> n))"

definition generateStats :: "env \<Rightarrow> MediaItem list \<Rightarrow> error + StatsData" where
  "generateStats e items =
     (let movies = filter (\<lambda>item. item_type item = ''movie'') items;
          tvShows = filter (\<lambda>item. item_type item = ''tv'') items
      in case calculateWatchCountsByPeriod e items of
           Inl err \<Rightarrow> Inl err
         | Inr (byDay, byMonth, byYear) \<Rightarrow>
             Inr \<lparr> totalWatched = length items,
                   movieCount = length movies,
                   tvCount = length tvShows,
                   watchedByDay = byDay,
                   watchedByMonth = byMonth,
                   watchedByYear = byYear,
                   mostWatchedShows = take 10 (sortBy byWatchCountDesc items),
                   continueWatchingShows =
                     sortBy (byWatchedDateDesc e)
                       (filter (\<lambda>show. continuing show = Some True) tvShows) \<rparr>)"

section \<open>Ingestion\<close>

text \<open>
  A row as the CSV library hands it over with \<^verbatim>\<open>header: true\<close>, and the two ways
  the library ends: the \<^verbatim>\<open>error\<close> callback or the \<^verbatim>\<open>complete\<close> callback with the rows.
\<close>

record CSVData =
  Title :: "string option"
  Date :: "string option"

datatype papaOutcome = PapaError string | PapaComplete "CSVData list"

definition hasTitleAndDate :: "CSVData \<Rightarrow> bool" where
  "hasTitleAndDate item = (truthy (Title item) \<and> truthy (Date item))"

definition toViewingItem :: "CSVData \<Rightarrow> NetflixViewingItem" where
  "toViewingItem item =
     \<lparr> title = (case Title item of None \<Rightarrow> [] | Some t \<Rightarrow> t),
       date = (case Date item of None \<Rightarrow> [] | Some d \<Rightarrow> d),
       rawTitle = Title item,
       rawDate = Date item \<rparr>"

text \<open>The listing of \<^verbatim>\<open>csvService.ts\<close> without a cap.\<close>

definition parseNetflixCSV :: "papaOutcome \<Rightarrow> string + NetflixViewingItem list" where
  "parseNetflixCSV outcome =
     (case outcome of
        PapaError err \<Rightarrow> Inl err
      | PapaComplete rows \<Rightarrow> Inr (map toViewingItem (filter hasTitleAndDate rows)))"

text \<open>The listing of \<^verbatim>\<open>csvService.ts\<close> that ends the chain with \<^verbatim>\<open>.slice(0, 50)\<close>.\<close>

definition parseNetflixCSV_sliced :: "papaOutcome \<Rightarrow> string + NetflixViewingItem list" where
  "parseNetflixCSV_sliced outcome =
     (case outcome of
        PapaError err \<Rightarrow> Inl err
      | PapaComplete rows \<Rightarrow> Inr (take 50 (map toViewingItem (filter hasTitleAndDate rows))))"

section \<open>The first listing of the catalog service\<close>

text \<open>
  \<^verbatim>\<open>src/services/tmdbService.ts\<close> holds an earlier \<^verbatim>\<open>processViewingHistory\<close>: batches
  of five, the record's code inline in the \<^verbatim>\<open>Promise.all\<close>. It suspends between the
  \<^verbatim>\<open>has\<close> test and the \<^verbatim>\<open>set\<close> only for a series (at \<^verbatim>\<open>await getTVShowDetails\<close>),
  and its branch for an unmatched title that is already stored raises the count and
  leaves the date alone.
\<close>

definition processItem_legacy ::
  "env \<Rightarrow> nat \<Rightarrow> NetflixViewingItem \<Rightarrow> mediaMap \<Rightarrow> (string \<times> MediaItem) option \<times> mediaMap" where
  "processItem_legacy e n item m =
     (let cleanedTitle = cleanTitle e (title item);
          searchResult = searchMedia e n cleanedTitle
      in case searchResult of
           result # _ \<Rightarrow>
             (let mediaType = mediaTypeOf result;
                  key = result_id result @ ''-'' @ mediaType
              in case map_of m key of
                   Some existingItem \<Rightarrow> (None, mapSet key (touchItem e (date item) existingItem) m)
                 | None \<Rightarrow>
                     if mediaType = ''tv''
                     then (Some (key, createMediaItem e n result (date item)), m)
                     else (None, mapSet key (createMediaItem e n result (date item)) m))
         | [] \<Rightarrow>
             (let key = ''unknown-'' @ title item
              in case map_of m key of
                   None \<Rightarrow> (None, mapSet key (createMinimalMediaItem (title item) (date item)) m)
                 | Some existingItem \<Rightarrow>
                     (None, mapSet key
                        (existingItem \<lparr> watchCount := Some (bumpCount (watchCount existingItem)) \<rparr>) m)))"

fun stepTask_legacy :: "env \<Rightarrow> task \<Rightarrow> mediaMap \<Rightarrow> task \<times> mediaMap" where
  "stepTask_legacy e (Searching (n, item)) m =
     (case processItem_legacy e n item m of
        (None, m') \<Rightarrow> (Settled, m')
      | (Some (key, mediaItem), m') \<Rightarrow> (Creating key mediaItem, m'))"
| "stepTask_legacy e (Creating key mediaItem) m = (Settled, mapSet key mediaItem m)"
| "stepTask_legacy e Settled m = (Settled, m)"

function batchLoop_legacy ::
  "env \<Rightarrow> (nat \<Rightarrow> nat list) \<Rightarrow> NetflixViewingItem list \<Rightarrow> nat \<Rightarrow> mediaMap \<Rightarrow> mediaMap" where
  "batchLoop_legacy e order viewingHistory i m =
     (if i < length viewingHistory
      then batchLoop_legacy e order viewingHistory (i + 5)
             (awaitAll (stepTask_legacy e) (order i) (enumerate i (take 5 (drop i viewingHistory))) m)
      else m)"
  by pat_completeness auto
termination
  by (relation "measure (\<lambda>(e, order, viewingHistory, i, m). length viewingHistory - i)") auto

declare batchLoop_legacy.simps [simp del]

definition processViewingHistory_legacy ::
  "env \<Rightarrow> (nat \<Rightarrow> nat list) \<Rightarrow> NetflixViewingItem list \<Rightarrow> MediaItem list" where
  "processViewingHistory_legacy e order viewingHistory =
     sortBy (byWatchedDateDesc e) (mapValues (batchLoop_legacy e order viewingHistory 0 []))"

section \<open>Notions used to state the properties\<close>

text \<open>
  The store after every batch from index \<open>i\<close> on has been processed: the loop without
  its cancellation check, callbacks and checkpoints.
\<close>

function processAll :: "env \<Rightarrow> host \<Rightarrow> NetflixViewingItem list \<Rightarrow> nat \<Rightarrow> mediaMap \<Rightarrow> mediaMap" where
  "processAll e h viewingHistory i m =
     (if i < length viewingHistory
      then processAll e h viewingHistory (i + batchSize)
             (processBatch e (resolveOrder h i) i (take batchSize (drop i viewingHistory)) m)
      else m)"
  by pat_completeness auto
termination
  by (relation "measure (\<lambda>(e, h, viewingHistory, i, m). length viewingHistory - i)")
     (auto simp: batchSize_def)

declare processAll.simps [simp del]

text \<open>
  The configuration (store, state, trace) a run has reached once the body of its loop has
  been executed \<open>k\<close> times, starting at index \<open>i\<close>.
\<close>

fun afterBatches ::
  "env \<Rightarrow> host \<Rightarrow> NetflixViewingItem list \<Rightarrow> nat \<Rightarrow> nat \<Rightarrow> nat \<Rightarrow>
   mediaMap \<times> state \<times> event list \<Rightarrow> mediaMap \<times> state \<times> event list" where
  "afterBatches e h viewingHistory startIndex 0 i c = c"
| "afterBatches e h viewingHistory startIndex (Suc k) i c =
     afterBatches e h viewingHistory startIndex k (i + batchSize)
       (batchIteration e h viewingHistory startIndex i c)"

text \<open>The key under which \<^verbatim>\<open>processViewingItem\<close> files a record.\<close>

definition recordKey :: "env \<Rightarrow> request \<Rightarrow> string" where
  "recordKey e r =
     (case searchMedia e (fst r) (cleanTitle e (title (snd r))) of
        result # _ \<Rightarrow> result_id result @ ''-'' @ mediaTypeOf result
      | [] \<Rightarrow> ''unknown-'' @ title (snd r))"

text \<open>
  The merge key read off a produced item: its id for the item of an unmatched title,
  id and type joined otherwise.
\<close>

definition itemKey :: "MediaItem \<Rightarrow> string" where
  "itemKey it =
     (if prefix ''unknown-'' (item_id it) then item_id it
      else item_id it @ ''-'' @ item_type it)"

text \<open>
  The catalog never answers with a first result whose key would read as the key of an
  unmatched title: its ids are numbers.
\<close>

definition catalogKeysApart :: "env \<Rightarrow> bool" where
  "catalogKeysApart e =
     (\<forall>n q. case searchMedia e n q of
            [] \<Rightarrow> True
          | result # _ \<Rightarrow> \<not> prefix ''unknown-'' (result_id result @ ''-'' @ mediaTypeOf result))"

text \<open>The host that never calls \<^verbatim>\<open>cancelProcessing\<close> during a run.\<close>

definition neverCancels :: "host \<Rightarrow> bool" where
  "neverCancels h = (\<forall>i. \<not> cancelDuringBatch h i \<and> \<not> cancelAfterBatch h i)"

text \<open>One record run from its search to its end with nothing in between.\<close>

definition settleRecord :: "stepper \<Rightarrow> mediaMap \<Rightarrow> request \<Rightarrow> mediaMap" where
  "settleRecord step m r = (case step (Searching r) m of (t, m') \<Rightarrow> snd (step t m'))"

text \<open>Records still pending in a batch.\<close>

definition pending :: "task list \<Rightarrow> nat" where
  "pending ts = sum_list (map (\<lambda>t. if t = Settled then 0 else 1) ts)"

text \<open>
  A store, and a pending \<^verbatim>\<open>set\<close>, in which every item sits under the key read off the
  item itself.
\<close>

definition filed :: "mediaMap \<Rightarrow> bool" where
  "filed m = (\<forall>(k, it) \<in> set m. itemKey it = k)"

definition filedTask :: "task \<Rightarrow> bool" where
  "filedTask t = (case t of Creating k it \<Rightarrow> itemKey it = k | _ \<Rightarrow> True)"

text \<open>The indices \<open>k, k, k+1, k+1, \<dots>\<close> of \<open>n\<close> records, each named twice.\<close>

definition twiceEach :: "nat \<Rightarrow> nat \<Rightarrow> nat list" where
  "twiceEach k n = concat (map (\<lambda>j. [j, j]) [k..<k + n])"

text \<open>The promises of a batch when \<^verbatim>\<open>Promise.all\<close> resolves.\<close>

definition finalTasks :: "stepper \<Rightarrow> nat list \<Rightarrow> request list \<Rightarrow> mediaMap \<Rightarrow> task list" where
  "finalTasks step order batch m =
     fst (runSchedule step (order @ inBatchOrder (length batch)) (map Searching batch) m)"

text \<open>A stepper under which a record is settled after being resumed twice.\<close>

definition settlesInTwo :: "stepper \<Rightarrow> bool" where
  "settlesInTwo step =
     ((\<forall>m. fst (step Settled m) = Settled)
      \<and> (\<forall>t m m'. fst (step (fst (step t m)) m') = Settled))"

text \<open>
  A record of the title \<open>T\<close> whose search came back without a candidate, and the records
  that have passed through the loop once its body has run \<open>k\<close> times from index \<open>i\<close> on.
\<close>

definition unmatchedRequest :: "env \<Rightarrow> string \<Rightarrow> request \<Rightarrow> bool" where
  "unmatchedRequest e T r =
     (title (snd r) = T \<and> searchMedia e (fst r) (cleanTitle e (title (snd r))) = [])"

definition processedRequests :: "NetflixViewingItem list \<Rightarrow> nat \<Rightarrow> nat \<Rightarrow> request list" where
  "processedRequests viewingHistory i k =
     take (k * batchSize) (enumerate i (drop i viewingHistory))"

text \<open>
  For the count of an unmatched title \<open>T\<close>: the records of that title without a
  candidate whose search is still pending; the watch count stored under a key; the
  count as \<^verbatim>\<open>existingItem.watchCount || 1\<close> reads it, with 0 for a key that holds
  nothing; an item apart from the two fields an update touches; the way the entry under
  a key has come from an earlier one by updates, or from nothing as the minimal item of
  \<open>T\<close>; and the absence of a pending \<^verbatim>\<open>set\<close> on a key.
\<close>

definition waiting :: "env \<Rightarrow> string \<Rightarrow> task list \<Rightarrow> nat" where
  "waiting e T ts =
     sum_list (map (\<lambda>t. case t of Searching r \<Rightarrow> if unmatchedRequest e T r then 1 else 0
                              | _ \<Rightarrow> 0) ts)"

definition watches :: "mediaMap \<Rightarrow> string \<Rightarrow> nat" where
  "watches m k =
     (case map_of m k of None \<Rightarrow> 0
      | Some it \<Rightarrow> (case watchCount it of None \<Rightarrow> 0 | Some n \<Rightarrow> n))"

definition storedCount :: "mediaMap \<Rightarrow> string \<Rightarrow> nat" where
  "storedCount m k =
     (case map_of m k of None \<Rightarrow> 0
      | Some it \<Rightarrow> (case watchCount it of None \<Rightarrow> 1 | Some n \<Rightarrow> if n = 0 then 1 else n))"

definition apartFromCountAndDate :: "MediaItem \<Rightarrow> MediaItem" where
  "apartFromCountAndDate it = it \<lparr> watchCount := None, watchedDate := [] \<rparr>"

definition grownFrom :: "string \<Rightarrow> MediaItem option \<Rightarrow> MediaItem option \<Rightarrow> bool" where
  "grownFrom T before now =
     (case now of
        None \<Rightarrow> before = None
      | Some it \<Rightarrow>
          apartFromCountAndDate it =
            apartFromCountAndDate
              (case before of None \<Rightarrow> createMinimalMediaItem T [] | Some it0 \<Rightarrow> it0)
          \<and> (now = before \<or> (\<exists>c. watchCount it = Some (Suc c))))"

definition noPendingSet :: "string \<Rightarrow> task list \<Rightarrow> bool" where
  "noPendingSet K ts = (\<forall>t \<in> set ts. case t of Creating k it \<Rightarrow> k \<noteq> K | _ \<Rightarrow> True)"

text \<open>
  The item a record creates when its key is absent, and a store whose entry under a key,
  if there is one, carries a positive watch count.
\<close>

definition freshItem :: "env \<Rightarrow> request \<Rightarrow> MediaItem" where
  "freshItem e r =
     (case searchMedia e (fst r) (cleanTitle e (title (snd r))) of
        [] \<Rightarrow> createMinimalMediaItem (title (snd r)) (date (snd r))
      | result # _ \<Rightarrow> createMediaItem e (fst r) result (date (snd r)))"

definition counted :: "mediaMap \<Rightarrow> string \<Rightarrow> bool" where
  "counted m k = (case map_of m k of None \<Rightarrow> True | Some it \<Rightarrow> \<exists>c. watchCount it = Some (Suc c))"

section \<open>Example inputs\<close>

definition darkResult :: TmdbResult where
  "darkResult =
     \<lparr> result_id = ''70523'', media_type = Some ''tv'', title_or_name = ''Dark'',
       poster_path = None, backdrop_path = None, result_overview = None,
       release_date = None, first_air_date = Some ''2017-12-01'', last_air_date = None,
       vote_average = None \<rparr>"

definition heatResult :: TmdbResult where
  "heatResult =
     \<lparr> result_id = ''949'', media_type = Some ''movie'', title_or_name = ''Heat'',
       poster_path = None, backdrop_path = None, result_overview = None,
       release_date = Some ''1995-12-15'', first_air_date = None, last_air_date = None,
       vote_average = None \<rparr>"

text \<open>
  A catalog that knows one series and one film and answers every request, with titles
  the normaliser leaves alone, and the runtime's reading of two ISO dates.
\<close>

definition exampleEnv :: env where
  "exampleEnv =
     \<lparr> searchMedia = (\<lambda>n q. if q = ''Dark'' then [darkResult]
                            else if q = ''Heat'' then [heatResult] else []),
       getTVShowDetails = (\<lambda>n i. Some (Some ''Ended'')),
       cleanTitle = (\<lambda>t. t),
       parseDate = (\<lambda>s. if s = ''2024-01-01'' then Some 1704067200000
                        else if s = ''2024-01-05'' then Some 1704412800000 else None),
       toISOString = (\<lambda>t. if t = 1704067200000 then ''2024-01-01T00:00:00.000Z''
                          else ''2024-01-05T00:00:00.000Z''),
       toLowerCase = (\<lambda>s. s) \<rparr>"

definition watched :: "string \<Rightarrow> string \<Rightarrow> NetflixViewingItem" where
  "watched t d = \<lparr> title = t, date = d, rawTitle = Some t, rawDate = Some d \<rparr>"

definition quietHost :: host where
  "quietHost =
     \<lparr> resolveOrder = (\<lambda>i. []), cancelDuringBatch = (\<lambda>i. False),
       cancelAfterBatch = (\<lambda>i. False), progressCallback = True, onItemProcessed = True \<rparr>"

text \<open>
  The network answers both searches of a two-record batch before either
  \<^verbatim>\<open>createMediaItem\<close> has resolved.
\<close>

definition racingHost :: host where
  "racingHost = quietHost \<lparr> resolveOrder := (\<lambda>i. [0, 1, 0, 1]) \<rparr>"

definition emptyStorage :: storage where
  "emptyStorage =
     \<lparr> iquit_viewing_history = None, iquit_processed_count = None,
       iquit_partial_items = None, iquit_processing_active = None \<rparr>"

definition idle :: state where
  "idle = \<lparr> processingCancelled = False, localStorage = emptyStorage \<rparr>"

text \<open>The item of the film after \<open>n\<close> watches on the first of January.\<close>

definition heatItem :: "nat \<Rightarrow> MediaItem" where
  "heatItem n = (createMediaItem exampleEnv 0 heatResult ''2024-01-01'') \<lparr> watchCount := Some n \<rparr>"

text \<open>A host that calls \<^verbatim>\<open>cancelProcessing\<close> while a batch is awaited.\<close>

definition cancellingHost :: host where
  "cancellingHost = quietHost \<lparr> cancelDuringBatch := (\<lambda>i. True) \<rparr>"

text \<open>
  The state a page reload finds when it interrupts the run that \<^verbatim>\<open>handleFileUpload\<close>
  started on forty-one records, in the pause after the second batch.
\<close>

definition reloadedState :: state where
  "reloadedState =
     fst (snd (afterBatches exampleEnv quietHost (replicate 41 (watched ''Heat'' ''2024-01-01'')) 0 2 0
       ([], resetCancellation
              (saveProcessingState (replicate 41 (watched ''Heat'' ''2024-01-01'')) 0 []
                 (clearProcessingState idle)), [])))"

text \<open>
  Forty-one titles the catalog does not know, \<^verbatim>\<open>z\<close>, \<^verbatim>\<open>zz\<close>, \<^verbatim>\<open>zzz\<close> and so on, each
  watched once; the entry the store holds for the title number \<open>j\<close> after a run, and
  the entry under which the host files that item when it rebuilds the store from a
  checkpoint; and the state a page reload finds when it interrupts the run that
  \<^verbatim>\<open>handleFileUpload\<close> started on these records, in the pause after the second batch.
\<close>

definition zs :: "nat \<Rightarrow> string" where
  "zs j = replicate (Suc j) CHR ''z''"

definition distinctTitles :: "nat \<Rightarrow> NetflixViewingItem list" where
  "distinctTitles n = map (\<lambda>j. watched (zs j) ''2024-01-01'') [0..<n]"

definition zsEntry :: "nat \<Rightarrow> string \<times> MediaItem" where
  "zsEntry j = (''unknown-'' @ zs j, createMinimalMediaItem (zs j) ''2024-01-01'')"

definition zsSeeded :: "nat \<Rightarrow> string \<times> MediaItem" where
  "zsSeeded j = (''unknown-'' @ zs j @ ''-movie'', createMinimalMediaItem (zs j) ''2024-01-01'')"

definition reloadedDistinct :: state where
  "reloadedDistinct =
     fst (snd (afterBatches exampleEnv quietHost (distinctTitles 41) 0 2 0
       ([], resetCancellation
              (saveProcessingState (distinctTitles 41) 0 [] (clearProcessingState idle)), [])))"

text \<open>The same catalog on a day when the second request of the run fails.\<close>

definition flakyEnv :: env where
  "flakyEnv =
     exampleEnv \<lparr> searchMedia := (\<lambda>n q. if n = 1 then [] else searchMedia exampleEnv n q) \<rparr>"

section \<open>Facts about the store, the steps and the loop\<close>

subsection \<open>The store\<close>

lemma mapHas_keys: "mapHas m k \<longleftrightarrow> k \<in> fst ` set m"
  by (simp add: mapHas_def map_of_eq_None_iff)

lemma map_of_mapSet: "map_of (mapSet k v m) = (map_of m)(k \<mapsto> v)"
  by (simp add: mapSet_def update_conv')

lemma keys_mapSet: "fst ` set (mapSet k v m) = insert k (fst ` set m)"
  by (simp add: mapSet_def dom_update)

lemma distinct_mapSet: "distinct (map fst m) \<Longrightarrow> distinct (map fst (mapSet k v m))"
  by (simp add: mapSet_def distinct_update)

lemma length_mapSet:
  "length (mapSet k v m) = (if k \<in> fst ` set m then length m else Suc (length m))"
proof -
  have "length (map fst (AList.update k v m)) = (if k \<in> fst ` set m then length m else Suc (length m))"
    by (simp add: update_keys)
  then show ?thesis by (simp add: mapSet_def)
qed

lemma mapSet_fresh: "k \<notin> fst ` set m \<Longrightarrow> mapSet k v m = m @ [(k, v)]"
  unfolding mapSet_def by (induction m) auto

lemma set_mapSet: "set (mapSet k v m) \<subseteq> insert (k, v) (set m)"
  unfolding mapSet_def by (induction m) auto

lemma map_of_updateExisting:
  "map_of (updateExistingMediaItem e m key wd) =
     (case map_of m key of None \<Rightarrow> map_of m
      | Some ex \<Rightarrow> (map_of m)(key \<mapsto> touchItem e wd ex))"
  by (simp add: updateExistingMediaItem_def map_of_mapSet split: option.splits)

lemma keys_updateExisting:
  "fst ` set (updateExistingMediaItem e m key wd) = fst ` set m"
  by (auto simp: updateExistingMediaItem_def keys_mapSet split: option.splits
           dest: map_of_SomeD intro: rev_image_eqI)

lemma distinct_updateExisting:
  "distinct (map fst m) \<Longrightarrow> distinct (map fst (updateExistingMediaItem e m key wd))"
  by (simp add: updateExistingMediaItem_def distinct_mapSet split: option.splits)

lemma length_updateExisting: "length (updateExistingMediaItem e m key wd) = length m"
proof (cases "map_of m key")
  case None
  then show ?thesis by (simp add: updateExistingMediaItem_def)
next
  case (Some ex)
  then have "key \<in> fst ` set m" by (auto dest: map_of_SomeD intro: rev_image_eqI)
  with Some show ?thesis by (simp add: updateExistingMediaItem_def length_mapSet)
qed

lemma set_updateExisting:
  "(k, it) \<in> set (updateExistingMediaItem e m key wd) \<Longrightarrow>
     (k, it) \<in> set m \<or> (k = key \<and> (\<exists>ex. map_of m key = Some ex \<and> it = touchItem e wd ex))"
  using set_mapSet by (fastforce simp: updateExistingMediaItem_def split: option.splits)

subsection \<open>One step of one record\<close>

text \<open>The three outcomes of a record whose search has resolved.\<close>

lemma processViewingItem_eq:
  "processViewingItem e n item m =
     (if mapHas m (recordKey e (n, item))
      then (None, updateExistingMediaItem e m (recordKey e (n, item)) (date item))
      else case searchMedia e n (cleanTitle e (title item)) of
             [] \<Rightarrow> (None, mapSet (recordKey e (n, item))
                             (createMinimalMediaItem (title item) (date item)) m)
           | result # _ \<Rightarrow>
               (Some (recordKey e (n, item), createMediaItem e n result (date item)), m))"
  by (simp add: processViewingItem_def recordKey_def Let_def split: list.splits)

lemma stepTask_Searching:
  "stepTask e (Searching r) m =
     (if mapHas m (recordKey e r)
      then (Settled, updateExistingMediaItem e m (recordKey e r) (date (snd r)))
      else case searchMedia e (fst r) (cleanTitle e (title (snd r))) of
             [] \<Rightarrow> (Settled, mapSet (recordKey e r)
                                (createMinimalMediaItem (title (snd r)) (date (snd r))) m)
           | result # _ \<Rightarrow>
               (Creating (recordKey e r) (createMediaItem e (fst r) result (date (snd r))), m))"
  by (cases r) (simp add: processViewingItem_eq split: list.splits)

lemma distinct_stepTask:
  "distinct (map fst m) \<Longrightarrow> distinct (map fst (snd (stepTask e t m)))"
  by (cases t)
     (auto simp: stepTask_Searching distinct_updateExisting distinct_mapSet split: list.splits)

subsection \<open>Schedules\<close>

lemma length_runSchedule [simp]: "length (fst (runSchedule step js ts m)) = length ts"
  by (induction js arbitrary: ts m) (auto split: prod.splits)

lemma runSchedule_append:
  "runSchedule step (js @ ks) ts m =
     (case runSchedule step js ts m of (ts', m') \<Rightarrow> runSchedule step ks ts' m')"
  by (induction js arbitrary: ts m) (auto split: prod.splits)

text \<open>Whatever each single step preserves, a schedule preserves.\<close>

lemma runSchedule_invariant:
  assumes "I ts m"
    and "\<And>ts m j. I ts m \<Longrightarrow> j < length ts \<Longrightarrow>
           I (ts[j := fst (step (ts ! j) m)]) (snd (step (ts ! j) m))"
  shows "I (fst (runSchedule step js ts m)) (snd (runSchedule step js ts m))"
  using assms(1)
proof (induction js arbitrary: ts m)
  case Nil
  then show ?case by simp
next
  case (Cons j js)
  show ?case
  proof (cases "j < length ts")
    case True
    obtain t' m' where s: "step (ts ! j) m = (t', m')" by (cases "step (ts ! j) m")
    have "I (ts[j := t']) m'" using assms(2)[OF Cons.prems True] s by simp
    from Cons.IH[OF this] show ?thesis using True s by simp
  next
    case False
    with Cons show ?thesis by simp
  qed
qed

lemma awaitAll_invariant:
  assumes "I (map Searching batch) m"
    and "\<And>ts m j. I ts m \<Longrightarrow> j < length ts \<Longrightarrow>
           I (ts[j := fst (step (ts ! j) m)]) (snd (step (ts ! j) m))"
  shows "\<exists>ts. length ts = length batch \<and> I ts (awaitAll step order batch m)"
proof -
  let ?r = "runSchedule step (order @ inBatchOrder (length batch)) (map Searching batch) m"
  have "I (fst ?r) (snd ?r)" by (rule runSchedule_invariant[OF assms])
  moreover have "length (fst ?r) = length batch" by simp
  ultimately show ?thesis unfolding awaitAll_def by blast
qed

lemma distinct_processBatch:
  "distinct (map fst m) \<Longrightarrow> distinct (map fst (processBatch e order i batch m))"
  using awaitAll_invariant[where I = "\<lambda>ts m. distinct (map fst m)" and step = "stepTask e"
      and batch = "enumerate i batch" and m = m and order = order]
  by (auto simp: processBatch_def distinct_stepTask)

subsection \<open>A batch adds at most one item per record\<close>

lemma pending_Searching [simp]: "pending (map Searching batch) = length batch"
  by (induction batch) (simp_all add: pending_def)

lemma pending_update:
  assumes "j < length ts"
  shows "pending (ts[j := t']) + (if ts ! j = Settled then 0 else 1)
           = pending ts + (if t' = Settled then 0 else 1)"
proof -
  let ?w = "\<lambda>t. if t = Settled then 0 else (1::nat)"
  have le: "?w (ts ! j) \<le> sum_list (map ?w ts)"
    using assms elem_le_sum_list[of j "map ?w ts"] by simp
  have "sum_list (map ?w (ts[j := t'])) = sum_list (map ?w ts) + ?w t' - ?w (ts ! j)"
    using assms by (simp add: map_update sum_list_update)
  with le show ?thesis unfolding pending_def by (simp split: if_splits)
qed

lemma length_stepTask:
  assumes "j < length ts"
  shows "length (snd (stepTask e (ts ! j) m)) + pending (ts[j := fst (stepTask e (ts ! j) m)])
           \<le> length m + pending ts"
proof (cases "ts ! j")
  case (Searching r)
  let ?K = "recordKey e r"
  have settled: "pending (ts[j := Settled]) + 1 = pending ts"
    using pending_update[OF assms, of Settled] Searching by simp
  have creating: "pending (ts[j := Creating ?K x]) = pending ts" for x
    using pending_update[OF assms, of "Creating ?K x"] Searching by simp
  show ?thesis
  proof (cases "mapHas m ?K")
    case True
    then show ?thesis using settled
      by (simp add: Searching stepTask_Searching length_updateExisting)
  next
    case False
    show ?thesis
    proof (cases "searchMedia e (fst r) (cleanTitle e (title (snd r)))")
      case Nil
      then show ?thesis using settled False
        by (simp add: Searching stepTask_Searching length_mapSet)
    next
      case (Cons result rest)
      then show ?thesis using creating False
        by (simp add: Searching stepTask_Searching)
    qed
  qed
next
  case (Creating key mediaItem)
  have "pending (ts[j := Settled]) + 1 = pending ts"
    using pending_update[OF assms, of Settled] Creating by simp
  then show ?thesis by (simp add: Creating length_mapSet)
next
  case Settled
  then have "ts[j := Settled] = ts" by (metis list_update_id)
  with Settled show ?thesis by simp
qed

lemma length_processBatch:
  "length (processBatch e order i batch m) \<le> length m + length batch"
proof -
  let ?I = "\<lambda>ts (m'::mediaMap). length m' + pending ts \<le> length m + length batch"
  have "\<exists>ts. length ts = length (enumerate i batch)
          \<and> ?I ts (awaitAll (stepTask e) order (enumerate i batch) m)"
  proof (rule awaitAll_invariant)
    show "?I (map Searching (enumerate i batch)) m" by simp
  next
    fix ts m' j
    assume "?I ts m'" "j < length ts"
    then show "?I (ts[j := fst (stepTask e (ts ! j) m')]) (snd (stepTask e (ts ! j) m'))"
      using length_stepTask[of j ts e m'] by linarith
  qed
  then show ?thesis by (auto simp: processBatch_def)
qed

subsection \<open>Every stored item sits under its own merge key\<close>

lemma itemKey_touchItem [simp]: "itemKey (touchItem e wd ex) = itemKey ex"
  by (simp add: itemKey_def touchItem_def)

lemma itemKey_createMinimal [simp]:
  "itemKey (createMinimalMediaItem t wd) = ''unknown-'' @ t"
  by (simp add: itemKey_def createMinimalMediaItem_def)

lemma catalogKeysApart_first:
  assumes "catalogKeysApart e" "searchMedia e n q = result # rest"
  shows "\<not> prefix ''unknown-'' (result_id result @ ''-'' @ mediaTypeOf result)"
proof -
  from assms(1) have "case searchMedia e n q of [] \<Rightarrow> True
      | result # _ \<Rightarrow> \<not> prefix ''unknown-'' (result_id result @ ''-'' @ mediaTypeOf result)"
    unfolding catalogKeysApart_def by blast
  with assms(2) show ?thesis by simp
qed

lemma itemKey_createMediaItem:
  assumes "catalogKeysApart e" "searchMedia e n q = result # rest"
  shows "itemKey (createMediaItem e n' result wd) = result_id result @ ''-'' @ mediaTypeOf result"
proof -
  have "\<not> prefix ''unknown-'' (result_id result)"
    using catalogKeysApart_first[OF assms] prefix_prefix by blast
  then show ?thesis by (simp add: itemKey_def createMediaItem_def Let_def)
qed

lemma filed_mapSet: "filed m \<Longrightarrow> itemKey v = k \<Longrightarrow> filed (mapSet k v m)"
  using set_mapSet[of k v m] by (auto simp: filed_def)

lemma filed_updateExisting:
  assumes "filed m"
  shows "filed (updateExistingMediaItem e m key wd)"
  unfolding filed_def
proof (clarify)
  fix k it
  assume "(k, it) \<in> set (updateExistingMediaItem e m key wd)"
  then consider "(k, it) \<in> set m"
    | ex where "k = key" "map_of m key = Some ex" "it = touchItem e wd ex"
    using set_updateExisting by blast
  then show "itemKey it = k"
  proof cases
    case 1
    with assms show ?thesis by (auto simp: filed_def)
  next
    case 2
    then have "(key, ex) \<in> set m" by (simp add: map_of_SomeD)
    with assms have "itemKey ex = key" by (auto simp: filed_def)
    with 2 show ?thesis by simp
  qed
qed

lemma filed_stepTask:
  assumes "catalogKeysApart e" "filed m" "filedTask t"
  shows "filed (snd (stepTask e t m)) \<and> filedTask (fst (stepTask e t m))"
proof (cases t)
  case (Searching r)
  show ?thesis
  proof (cases "searchMedia e (fst r) (cleanTitle e (title (snd r)))")
    case Nil
    then show ?thesis using assms(2)
      by (simp add: Searching stepTask_Searching filed_updateExisting filed_mapSet
            filedTask_def recordKey_def)
  next
    case (Cons result rest)
    then show ?thesis using assms(2) itemKey_createMediaItem[OF assms(1) Cons]
      by (simp add: Searching stepTask_Searching filed_updateExisting filedTask_def
            recordKey_def)
  qed
next
  case (Creating key mediaItem)
  then show ?thesis using assms by (simp add: filed_mapSet filedTask_def)
next
  case Settled
  then show ?thesis using assms by simp
qed

lemma filed_processBatch:
  assumes "catalogKeysApart e" "filed m"
  shows "filed (processBatch e order i batch m)"
proof -
  let ?I = "\<lambda>ts m'. filed m' \<and> (\<forall>t \<in> set ts. filedTask t)"
  have "\<exists>ts. length ts = length (enumerate i batch)
          \<and> ?I ts (awaitAll (stepTask e) order (enumerate i batch) m)"
  proof (rule awaitAll_invariant)
    show "?I (map Searching (enumerate i batch)) m" using assms(2) by (auto simp: filedTask_def)
  next
    fix ts m' j
    assume I: "?I ts m'" and j: "j < length ts"
    then have "filedTask (ts ! j)" by simp
    from filed_stepTask[OF assms(1) _ this, of m'] I
    have s: "filed (snd (stepTask e (ts ! j) m'))" "filedTask (fst (stepTask e (ts ! j) m'))"
      by simp_all
    have "\<forall>t \<in> set (ts[j := fst (stepTask e (ts ! j) m')]). filedTask t"
      using I s(2) set_update_subset_insert[of ts j] by blast
    with s(1) show "?I (ts[j := fst (stepTask e (ts ! j) m')]) (snd (stepTask e (ts ! j) m'))"
      by simp
  qed
  then show ?thesis by (auto simp: processBatch_def)
qed

lemma filed_keys: "filed m \<Longrightarrow> map itemKey (mapValues m) = map fst m"
  by (induction m) (auto simp: filed_def mapValues_def)

subsection \<open>Sorting rearranges\<close>

lemma mset_insertBy [simp]: "mset (insertBy cmp x xs) = add_mset x (mset xs)"
  by (induction xs) simp_all

lemma mset_sortBy [simp]: "mset (sortBy cmp xs) = mset xs"
  by (induction xs) (simp_all add: sortBy_def)

lemma length_sortBy [simp]: "length (sortBy cmp xs) = length xs"
  using mset_eq_length[OF mset_sortBy] .

lemma distinct_map_sortBy [simp]:
  "distinct (map f (sortBy cmp xs)) = distinct (map f xs)"
proof -
  have "mset (map f (sortBy cmp xs)) = mset (map f xs)" by simp
  then show ?thesis by (rule mset_eq_imp_distinct_iff)
qed

lemma sortBy_ties:
  assumes "\<And>x y. x \<in> set xs \<Longrightarrow> y \<in> set xs \<Longrightarrow> cmp x y = Some 0"
  shows "sortBy cmp xs = xs"
  using assms
proof (induction xs)
  case Nil
  then show ?case by (simp add: sortBy_def)
next
  case (Cons x xs)
  then have "sortBy cmp xs = xs" by simp
  then have "sortBy cmp (x # xs) = insertBy cmp x xs" by (simp add: sortBy_def)
  also have "\<dots> = x # xs" using Cons.prems by (cases xs) simp_all
  finally show ?case .
qed

subsection \<open>From a batch to the loop\<close>

lemma hostCancels_False [simp]: "hostCancels False c = c"
  by (cases c) (simp add: hostCancels_def)

lemma hostCancels_True [simp]:
  "hostCancels True (s, tr) = (cancelProcessing s, tr @ [CancelRequested])"
  by (simp add: hostCancels_def)

lemma batchIteration_store [simp]:
  "fst (batchIteration e h vh startIndex i (m, s, tr)) =
     processBatch e (resolveOrder h i) i (take batchSize (drop i vh)) m"
  by (simp add: batchIteration_def Let_def split: prod.splits)

lemma batchLoop_invariant:
  assumes "P m"
    and "\<And>order i batch m. P m \<Longrightarrow> P (processBatch e order i batch m)"
  shows "P (fst (snd (batchLoop e h vh startIndex i (m, s, tr))))"
  using assms
proof (induction e h vh startIndex i "(m, s, tr)" arbitrary: m s tr rule: batchLoop.induct)
  case (1 e h vh startIndex i)
  show ?case
  proof (cases "i < length vh \<and> \<not> processingCancelled s")
    case True
    obtain m1 s1 tr1 where it: "batchIteration e h vh startIndex i (m, s, tr) = (m1, s1, tr1)"
      by (cases "batchIteration e h vh startIndex i (m, s, tr)")
    then have m1: "m1 = processBatch e (resolveOrder h i) i (take batchSize (drop i vh)) m"
      using batchIteration_store[of e h vh startIndex i m s tr] by simp
    have "P m1" unfolding m1 by (rule "1.prems"(2)[OF "1.prems"(1)])
    from "1.hyps"[OF _ _ it this "1.prems"(2)] True show ?thesis
      by (simp add: batchLoop.simps[of e h vh startIndex i] it)
  next
    case False
    with "1.prems"(1) show ?thesis by (auto simp: batchLoop.simps[of e h vh startIndex i])
  qed
qed

lemma batchLoop_length:
  "length (fst (snd (batchLoop e h vh startIndex i (m, s, tr)))) \<le> length m + (length vh - i)"
proof (induction e h vh startIndex i "(m, s, tr)" arbitrary: m s tr rule: batchLoop.induct)
  case (1 e h vh startIndex i)
  show ?case
  proof (cases "i < length vh \<and> \<not> processingCancelled s")
    case True
    obtain m1 s1 tr1 where it: "batchIteration e h vh startIndex i (m, s, tr) = (m1, s1, tr1)"
      by (cases "batchIteration e h vh startIndex i (m, s, tr)")
    then have m1: "m1 = processBatch e (resolveOrder h i) i (take batchSize (drop i vh)) m"
      using batchIteration_store[of e h vh startIndex i m s tr] by simp
    have "length m1 \<le> length m + min batchSize (length vh - i)"
      unfolding m1 using length_processBatch[of e "resolveOrder h i" i "take batchSize (drop i vh)" m]
      by simp
    moreover have "length (fst (snd (batchLoop e h vh startIndex (i + batchSize) (m1, s1, tr1))))
        \<le> length m1 + (length vh - (i + batchSize))"
      using "1.hyps"[OF _ _ it] True by simp
    ultimately have "length (fst (snd (batchLoop e h vh startIndex (i + batchSize) (m1, s1, tr1))))
        \<le> length m + (length vh - i)"
      by arith
    then show ?thesis using True
      by (simp add: batchLoop.simps[of e h vh startIndex i] it)
  next
    case False
    then show ?thesis by (auto simp: batchLoop.simps[of e h vh startIndex i])
  qed
qed

lemma mediaItems_run:
  "mset (mediaItems (fst (processViewingHistory e h vh startIndex existing s))) =
     mset (mapValues (fst (snd (batchLoop e h vh startIndex startIndex
        (case existing of None \<Rightarrow> [] | Some m \<Rightarrow> m, resetCancellation s, [])))))"
  by (simp add: processViewingHistory_def Let_def split: prod.splits)

subsection \<open>Without interleaving a batch is a fold over its records\<close>

lemma twiceEach_0 [simp]: "twiceEach k 0 = []"
  by (simp add: twiceEach_def)

lemma twiceEach_Suc: "twiceEach k (Suc n) = k # k # twiceEach (Suc k) n"
proof -
  have "[k..<k + Suc n] = k # [Suc k..<Suc k + n]" by (simp add: upt_conv_Cons)
  then show ?thesis unfolding twiceEach_def by (simp only: list.map concat.simps append.simps)
qed

lemma runSchedule_in_order:
  "snd (runSchedule step (twiceEach (length pre) (length items)) (pre @ map Searching items) m)
     = foldl (settleRecord step) m items"
proof (induction items arbitrary: pre m)
  case Nil
  then show ?case by simp
next
  case (Cons item items)
  obtain t1 m1 where s1: "step (Searching item) m = (t1, m1)" by (cases "step (Searching item) m")
  obtain t2 m2 where s2: "step t1 m1 = (t2, m2)" by (cases "step t1 m1")
  have settle: "settleRecord step m item = m2" by (simp add: settleRecord_def s1 s2)
  have "snd (runSchedule step (twiceEach (length (pre @ [t2])) (length items))
               ((pre @ [t2]) @ map Searching items) m2)
          = foldl (settleRecord step) m2 items"
    by (rule Cons.IH)
  then have "snd (runSchedule step (twiceEach (Suc (length pre)) (length items))
               (pre @ t2 # map Searching items) m2)
          = foldl (settleRecord step) m2 items"
    by simp
  moreover have "runSchedule step (twiceEach (length pre) (length (item # items)))
               (pre @ map Searching (item # items)) m
       = runSchedule step (twiceEach (Suc (length pre)) (length items))
               (pre @ t2 # map Searching items) m2"
    by (simp add: twiceEach_Suc s1 s2)
  ultimately show ?case by (simp add: settle)
qed

lemma awaitAll_sequential: "awaitAll step [] batch m = foldl (settleRecord step) m batch"
  using runSchedule_in_order[of step "[]" batch m]
  by (simp add: awaitAll_def inBatchOrder_def twiceEach_def)

lemma processBatch_sequential:
  "processBatch e [] i batch m = foldl (settleRecord (stepTask e)) m (enumerate i batch)"
  by (simp add: processBatch_def awaitAll_sequential)

lemma settleRecord_stepTask:
  "settleRecord (stepTask e) m r =
     (if mapHas m (recordKey e r)
      then updateExistingMediaItem e m (recordKey e r) (date (snd r))
      else mapSet (recordKey e r) (freshItem e r) m)"
  by (simp add: settleRecord_def stepTask_Searching freshItem_def split: list.splits)

lemma watchCount_freshItem [simp]: "watchCount (freshItem e r) = Some (Suc 0)"
  by (simp add: freshItem_def createMinimalMediaItem_def createMediaItem_def Let_def
           split: list.splits)

lemma filed_Nil [simp]: "filed []"
  by (simp add: filed_def)

lemma catalogKeysApart_exampleEnv: "catalogKeysApart exampleEnv"
  by (simp add: catalogKeysApart_def exampleEnv_def darkResult_def heatResult_def
        mediaTypeOf_def truthy_def)

subsection \<open>A run nobody cancels\<close>

lemma flag_cancelProcessing [simp]: "processingCancelled (cancelProcessing s)"
  by (simp add: cancelProcessing_def clearProcessingState_def)

lemma flag_saveProcessingState [simp]:
  "processingCancelled (saveProcessingState vh n items s) = processingCancelled s"
  by (simp add: saveProcessingState_def)

lemma flag_resetCancellation [simp]: "\<not> processingCancelled (resetCancellation s)"
  by (simp add: resetCancellation_def)

lemma batchIteration_flag:
  assumes "neverCancels h"
  shows "processingCancelled (fst (snd (batchIteration e h vh startIndex i (m, s, tr))))
           = processingCancelled s"
  using assms by (simp add: batchIteration_def neverCancels_def Let_def)

lemma batchLoop_completed:
  "fst (batchLoop e h vh startIndex i (m, s, tr)) = False \<Longrightarrow>
     fst (snd (batchLoop e h vh startIndex i (m, s, tr))) = processAll e h vh i m"
proof (induction e h vh startIndex i "(m, s, tr)" arbitrary: m s tr rule: batchLoop.induct)
  case (1 e h vh startIndex i)
  show ?case
  proof (cases "i < length vh")
    case True
    with "1.prems" have nc: "\<not> processingCancelled s"
      by (auto simp: batchLoop.simps[of e h vh startIndex i])
    obtain m1 s1 tr1 where it: "batchIteration e h vh startIndex i (m, s, tr) = (m1, s1, tr1)"
      by (cases "batchIteration e h vh startIndex i (m, s, tr)")
    then have m1: "m1 = processBatch e (resolveOrder h i) i (take batchSize (drop i vh)) m"
      using batchIteration_store[of e h vh startIndex i m s tr] by simp
    have "fst (batchLoop e h vh startIndex (i + batchSize) (m1, s1, tr1)) = False"
      using "1.prems" True nc by (simp add: batchLoop.simps[of e h vh startIndex i] it)
    from "1.hyps"[OF _ _ it this] True nc
    have "fst (snd (batchLoop e h vh startIndex (i + batchSize) (m1, s1, tr1)))
            = processAll e h vh (i + batchSize) m1" by simp
    then show ?thesis using True nc
      by (simp add: batchLoop.simps[of e h vh startIndex i] it processAll.simps[of e h vh i] m1)
  next
    case False
    then show ?thesis
      by (simp add: batchLoop.simps[of e h vh startIndex i] processAll.simps[of e h vh i])
  qed
qed

lemma batchLoop_uncancelled:
  assumes "neverCancels h" "\<not> processingCancelled s"
  shows "fst (batchLoop e h vh startIndex i (m, s, tr)) = False"
  using assms
proof (induction e h vh startIndex i "(m, s, tr)" arbitrary: m s tr rule: batchLoop.induct)
  case (1 e h vh startIndex i)
  show ?case
  proof (cases "i < length vh")
    case True
    obtain m1 s1 tr1 where it: "batchIteration e h vh startIndex i (m, s, tr) = (m1, s1, tr1)"
      by (cases "batchIteration e h vh startIndex i (m, s, tr)")
    then have "\<not> processingCancelled s1"
      using batchIteration_flag[OF "1.prems"(1), of e vh startIndex i m s tr] "1.prems"(2) by simp
    from "1.hyps"[OF _ _ it "1.prems"(1) this] True "1.prems"(2) show ?thesis
      by (simp add: batchLoop.simps[of e h vh startIndex i] it)
  next
    case False
    then show ?thesis by (simp add: batchLoop.simps[of e h vh startIndex i])
  qed
qed

lemma processViewingHistory_uncancelled:
  assumes "neverCancels h"
  shows "fst (processViewingHistory e h vh startIndex existing s) =
           \<lparr> mediaItems = sortBy (byWatchedDateDesc e)
               (mapValues (processAll e h vh startIndex
                  (case existing of None \<Rightarrow> [] | Some m \<Rightarrow> m))),
             cancelled = False \<rparr>"
proof -
  let ?m0 = "case existing of None \<Rightarrow> [] | Some m \<Rightarrow> m"
  let ?r = "batchLoop e h vh startIndex startIndex (?m0, resetCancellation s, [])"
  obtain c m' s' tr' where r: "?r = (c, m', s', tr')" by (cases ?r)
  have "fst ?r = False" by (rule batchLoop_uncancelled[OF assms]) simp
  moreover from this have "fst (snd ?r) = processAll e h vh startIndex ?m0"
    by (rule batchLoop_completed)
  ultimately have "c = False" "m' = processAll e h vh startIndex ?m0" using r by simp_all
  then show ?thesis by (simp add: processViewingHistory_def r)
qed

text \<open>The records from an index on are those of the batch there and those after it.\<close>

lemma enumerate_batches:
  "enumerate i (take n (drop i vh)) @ enumerate (i + n) (drop (i + n) vh)
     = enumerate i (drop i vh)"
proof -
  let ?xs = "drop i vh"
  have d: "drop (i + n) vh = drop n ?xs" by (simp add: add.commute)
  have "enumerate i (take n ?xs @ drop n ?xs)
          = enumerate i (take n ?xs) @ enumerate (i + length (take n ?xs)) (drop n ?xs)"
    by (rule enumerate_append_eq)
  moreover have "enumerate (i + length (take n ?xs)) (drop n ?xs) = enumerate (i + n) (drop n ?xs)"
  proof (cases "n \<le> length ?xs")
    case True
    then have "length (take n ?xs) = n" by simp
    then show ?thesis by simp
  next
    case False
    then have "drop n ?xs = []" by simp
    then show ?thesis by simp
  qed
  ultimately show ?thesis by (simp only: d append_take_drop_id)
qed

lemma processAll_sequential:
  assumes "\<And>i. resolveOrder h i = []"
  shows "processAll e h vh i m = foldl (settleRecord (stepTask e)) m (enumerate i (drop i vh))"
  using assms
proof (induction e h vh i m rule: processAll.induct)
  case (1 e h vh i m)
  show ?case
  proof (cases "i < length vh")
    case True
    have "foldl (settleRecord (stepTask e)) m (enumerate i (drop i vh))
        = foldl (settleRecord (stepTask e))
            (foldl (settleRecord (stepTask e)) m (enumerate i (take batchSize (drop i vh))))
            (enumerate (i + batchSize) (drop (i + batchSize) vh))"
      using enumerate_batches[of i batchSize vh] by (metis foldl_append)
    with True "1.IH" "1.prems" show ?thesis
      by (simp add: processAll.simps[of e h vh i] processBatch_sequential)
  next
    case False
    then show ?thesis by (simp add: processAll.simps[of e h vh i])
  qed
qed

lemmas record_steps = processViewingItem_def mapHas_def mapSet_def mediaTypeOf_def truthy_def
  createMediaItem_def createMinimalMediaItem_def updateExistingMediaItem_def touchItem_def
  bumpCount_def dateGreater_def Let_def

lemmas examples = exampleEnv_def darkResult_def heatResult_def watched_def

lemma neverCancels_quietHost: "neverCancels quietHost"
  by (simp add: neverCancels_def quietHost_def)

subsection \<open>Every record of a batch settles\<close>

lemma settlesInTwo_stepTask: "settlesInTwo (stepTask e)"
proof -
  have "fst (stepTask e (fst (stepTask e t m)) m') = Settled" for t m m'
    by (cases t) (auto simp: stepTask_Searching split: list.splits)
  then show ?thesis by (simp add: settlesInTwo_def)
qed

lemma settled_stays:
  assumes "settlesInTwo step" "j < length ts" "ts ! j = Settled"
  shows "fst (runSchedule step js ts m) ! j = Settled"
  using assms(2,3)
proof (induction js arbitrary: ts m)
  case Nil
  then show ?case by simp
next
  case (Cons i js)
  show ?case
  proof (cases "i < length ts")
    case True
    obtain t' m' where s: "step (ts ! i) m = (t', m')" by (cases "step (ts ! i) m")
    have "ts[i := t'] ! j = Settled"
    proof (cases "i = j")
      case True
      with s Cons.prems assms(1) show ?thesis
        by (metis fst_conv nth_list_update_eq settlesInTwo_def)
    next
      case False
      with Cons.prems show ?thesis by simp
    qed
    with Cons.IH[of "ts[i := t']" m'] Cons.prems True s show ?thesis by simp
  next
    case False
    with Cons show ?thesis by simp
  qed
qed

lemma twiceEach_snoc: "twiceEach 0 (Suc n) = twiceEach 0 n @ [n, n]"
  by (simp add: twiceEach_def)

lemma drained:
  assumes "settlesInTwo step" "k \<le> length ts"
  shows "\<forall>j<k. fst (runSchedule step (twiceEach 0 k) ts m) ! j = Settled"
  using assms(2)
proof (induction k)
  case 0
  then show ?case by simp
next
  case (Suc k)
  obtain ts1 m1 where r1: "runSchedule step (twiceEach 0 k) ts m = (ts1, m1)"
    by (cases "runSchedule step (twiceEach 0 k) ts m")
  have len1: "length ts1 = length ts"
    using length_runSchedule[of step "twiceEach 0 k" ts m] r1 by simp
  have before: "\<forall>j<k. ts1 ! j = Settled" using Suc r1 by simp
  obtain ta ma where sa: "step (ts1 ! k) m1 = (ta, ma)" by (cases "step (ts1 ! k) m1")
  obtain tb mb where sb: "step ta ma = (tb, mb)" by (cases "step ta ma")
  have tb: "tb = Settled"
    using assms(1) sa sb unfolding settlesInTwo_def by (metis fst_conv)
  have k: "k < length ts1" using Suc.prems len1 by simp
  have "runSchedule step (twiceEach 0 (Suc k)) ts m = (ts1[k := Settled], mb)"
    using k sa sb tb by (simp add: twiceEach_snoc runSchedule_append r1)
  moreover have "\<forall>j<Suc k. ts1[k := Settled] ! j = Settled"
    using before k by (simp add: nth_list_update less_Suc_eq)
  ultimately show ?case by simp
qed

lemma finalTasks_settled:
  assumes "settlesInTwo step"
  shows "\<forall>t \<in> set (finalTasks step order batch m). t = Settled"
proof -
  obtain ts1 m1 where r1: "runSchedule step order (map Searching batch) m = (ts1, m1)"
    by (cases "runSchedule step order (map Searching batch) m")
  have len1: "length ts1 = length batch"
    using length_runSchedule[of step order "map Searching batch" m] r1 by simp
  let ?ts = "fst (runSchedule step (twiceEach 0 (length batch)) ts1 m1)"
  have "\<forall>j<length batch. ?ts ! j = Settled"
    using drained[OF assms, of "length batch" ts1 m1] len1 by simp
  moreover have "length ?ts = length batch" using len1 by simp
  ultimately have "\<forall>t \<in> set ?ts. t = Settled" by (metis in_set_conv_nth)
  then show ?thesis
    by (simp add: finalTasks_def runSchedule_append r1 inBatchOrder_def twiceEach_def)
qed

lemma awaitAll_final_invariant:
  assumes "I (map Searching batch) m"
    and "\<And>ts m j. I ts m \<Longrightarrow> j < length ts \<Longrightarrow>
           I (ts[j := fst (step (ts ! j) m)]) (snd (step (ts ! j) m))"
  shows "I (finalTasks step order batch m) (awaitAll step order batch m)"
  unfolding finalTasks_def awaitAll_def by (rule runSchedule_invariant[OF assms])

subsection \<open>Counting the watches of an unmatched title\<close>

lemma sum_list_map_update:
  fixes f :: "'a \<Rightarrow> nat"
  assumes "j < length xs"
  shows "sum_list (map f (xs[j := y])) + f (xs ! j) = sum_list (map f xs) + f y"
proof -
  have le: "f (xs ! j) \<le> sum_list (map f xs)"
    using assms elem_le_sum_list[of j "map f xs"] by simp
  have "sum_list (map f (xs[j := y])) = sum_list (map f xs) + f y - f (xs ! j)"
    using assms by (simp add: map_update sum_list_update)
  with le show ?thesis by simp
qed

lemma waiting_Searching [simp]:
  "waiting e T (map Searching batch) = length (filter (unmatchedRequest e T) batch)"
  by (induction batch) (simp_all add: waiting_def)

lemma noPendingSet_Searching [simp]: "noPendingSet K (map Searching batch)"
  by (auto simp: noPendingSet_def)

lemma noPendingSet_update:
  assumes "noPendingSet K ts" "case t' of Creating k it \<Rightarrow> k \<noteq> K | _ \<Rightarrow> True"
  shows "noPendingSet K (ts[j := t'])"
  using assms set_update_subset_insert[of ts j t'] unfolding noPendingSet_def by blast

lemma recordKey_unmatched:
  "unmatchedRequest e T r \<Longrightarrow> recordKey e r = ''unknown-'' @ T"
  by (auto simp: recordKey_def unmatchedRequest_def)

lemma recordKey_other:
  assumes "catalogKeysApart e" "\<not> unmatchedRequest e T r"
  shows "recordKey e r \<noteq> ''unknown-'' @ T"
proof (cases "searchMedia e (fst r) (cleanTitle e (title (snd r)))")
  case Nil
  with assms(2) have "title (snd r) \<noteq> T" by (simp add: unmatchedRequest_def)
  with Nil show ?thesis by (simp add: recordKey_def)
next
  case (Cons result rest)
  have "prefix ''unknown-'' (''unknown-'' @ T)" by simp
  moreover have "recordKey e r = result_id result @ ''-'' @ mediaTypeOf result"
    by (simp add: recordKey_def Cons)
  ultimately show ?thesis using catalogKeysApart_first[OF assms(1) Cons] by metis
qed

lemma other_key_mapSet:
  assumes "k \<noteq> K"
  shows "map_of (mapSet k v m) K = map_of m K"
  using assms by (simp add: map_of_mapSet)

lemma other_key_updateExisting:
  assumes "k \<noteq> K"
  shows "map_of (updateExistingMediaItem e m k wd) K = map_of m K"
  using assms by (simp add: map_of_updateExisting split: option.splits)

lemma other_key_stepTask:
  assumes "recordKey e r \<noteq> K"
  shows "map_of (snd (stepTask e (Searching r) m)) K = map_of m K"
  using assms
  by (simp add: stepTask_Searching other_key_mapSet other_key_updateExisting split: list.splits)

lemma storedCount_cong: "map_of m' K = map_of m K \<Longrightarrow> storedCount m' K = storedCount m K"
  by (simp add: storedCount_def)

lemma grownFrom_refl [simp]: "grownFrom T before before"
  by (simp add: grownFrom_def split: option.splits)

lemma grownFrom_trans:
  assumes "grownFrom T a b" "grownFrom T b c"
  shows "grownFrom T a c"
proof (cases c)
  case None
  with assms show ?thesis by (simp add: grownFrom_def)
next
  case c: (Some itc)
  show ?thesis
  proof (cases b)
    case None
    with assms c show ?thesis by (simp add: grownFrom_def)
  next
    case b: (Some itb)
    from assms(2) b c have bc: "apartFromCountAndDate itc = apartFromCountAndDate itb"
      "itc = itb \<or> (\<exists>n. watchCount itc = Some (Suc n))"
      by (simp_all add: grownFrom_def)
    from assms(1) b have ab: "apartFromCountAndDate itb =
        apartFromCountAndDate (case a of None \<Rightarrow> createMinimalMediaItem T [] | Some it0 \<Rightarrow> it0)"
      "Some itb = a \<or> (\<exists>n. watchCount itb = Some (Suc n))"
      by (simp_all add: grownFrom_def)
    from bc(2) ab(2) have "Some itc = a \<or> (\<exists>n. watchCount itc = Some (Suc n))" by auto
    with bc(1) ab(1) c show ?thesis by (simp add: grownFrom_def)
  qed
qed

text \<open>A record of the title without a candidate adds one to the count under the key.\<close>

lemma same_key_stepTask:
  assumes un: "unmatchedRequest e T r" and K: "K = ''unknown-'' @ T"
    and gr: "grownFrom T before (map_of m K)"
  shows "fst (stepTask e (Searching r) m) = Settled
     \<and> grownFrom T before (map_of (snd (stepTask e (Searching r) m)) K)
     \<and> storedCount (snd (stepTask e (Searching r) m)) K = Suc (storedCount m K)"
proof -
  have key: "recordKey e r = K" using recordKey_unmatched[OF un] K by simp
  have none: "searchMedia e (fst r) (cleanTitle e (title (snd r))) = []"
    and T: "title (snd r) = T"
    using un unfolding unmatchedRequest_def by blast+
  show ?thesis
  proof (cases "map_of m K")
    case None
    with gr have "before = None" by (simp add: grownFrom_def)
    with None none T show ?thesis
      by (simp add: stepTask_Searching key mapHas_def map_of_mapSet grownFrom_def storedCount_def
            createMinimalMediaItem_def apartFromCountAndDate_def)
  next
    case (Some it)
    from gr Some have base: "apartFromCountAndDate it =
        apartFromCountAndDate (case before of None \<Rightarrow> createMinimalMediaItem T [] | Some it0 \<Rightarrow> it0)"
      by (simp add: grownFrom_def)
    have "apartFromCountAndDate (touchItem e (date (snd r)) it) = apartFromCountAndDate it"
      by (simp add: apartFromCountAndDate_def touchItem_def)
    with base Some show ?thesis
      by (simp add: stepTask_Searching key mapHas_def map_of_updateExisting grownFrom_def
            storedCount_def touchItem_def bumpCount_def split: option.splits)
  qed
qed

lemma count_step:
  assumes apart: "catalogKeysApart e" and K: "K = ''unknown-'' @ T"
    and j: "j < length ts" and np: "noPendingSet K ts"
    and gr: "grownFrom T before (map_of m K)"
  shows "noPendingSet K (ts[j := fst (stepTask e (ts ! j) m)])
     \<and> grownFrom T before (map_of (snd (stepTask e (ts ! j) m)) K)
     \<and> storedCount (snd (stepTask e (ts ! j) m)) K
           + waiting e T (ts[j := fst (stepTask e (ts ! j) m)])
         = storedCount m K + waiting e T ts"
proof -
  let ?w = "\<lambda>t. case t of Searching r \<Rightarrow> if unmatchedRequest e T r then 1 else 0 | _ \<Rightarrow> (0::nat)"
  have upd: "waiting e T (ts[j := t']) + ?w (ts ! j) = waiting e T ts + ?w t'" for t'
    unfolding waiting_def using sum_list_map_update[OF j, of ?w t'] .
  show ?thesis
  proof (cases "ts ! j")
    case (Searching r)
    show ?thesis
    proof (cases "unmatchedRequest e T r")
      case True
      from same_key_stepTask[OF True K gr]
      have r: "fst (stepTask e (Searching r) m) = Settled"
        "grownFrom T before (map_of (snd (stepTask e (Searching r) m)) K)"
        "storedCount (snd (stepTask e (Searching r) m)) K = Suc (storedCount m K)"
        by simp_all
      have "waiting e T (ts[j := Settled]) + 1 = waiting e T ts"
        using upd[of Settled] Searching True by simp
      moreover have "noPendingSet K (ts[j := Settled])"
        using noPendingSet_update[OF np, of Settled] by simp
      ultimately show ?thesis using r by (simp add: Searching)
    next
      case False
      have key: "recordKey e r \<noteq> K" using recordKey_other[OF apart False] K by simp
      have same: "map_of (snd (stepTask e (Searching r) m)) K = map_of m K"
        by (rule other_key_stepTask[OF key])
      have t': "fst (stepTask e (Searching r) m) = Settled
                \<or> (\<exists>it. fst (stepTask e (Searching r) m) = Creating (recordKey e r) it)"
        by (auto simp: stepTask_Searching split: list.splits)
      then have "noPendingSet K (ts[j := fst (stepTask e (Searching r) m)])"
        using noPendingSet_update[OF np] key by fastforce
      moreover have "waiting e T (ts[j := fst (stepTask e (Searching r) m)]) = waiting e T ts"
        using upd[of "fst (stepTask e (Searching r) m)"] t' Searching False by auto
      ultimately show ?thesis using same gr storedCount_cong[OF same] by (simp add: Searching)
    qed
  next
    case (Creating k it)
    have "Creating k it \<in> set ts" using j Creating by (metis nth_mem)
    with np have k: "k \<noteq> K" unfolding noPendingSet_def by fastforce
    have same: "map_of (snd (stepTask e (Creating k it) m)) K = map_of m K"
      using other_key_mapSet[OF k] by simp
    have "waiting e T (ts[j := Settled]) = waiting e T ts" using upd[of Settled] Creating by simp
    moreover have "noPendingSet K (ts[j := Settled])"
      using noPendingSet_update[OF np, of Settled] by simp
    ultimately show ?thesis using same gr storedCount_cong[OF same] by (simp add: Creating)
  next
    case Settled
    then have "ts[j := Settled] = ts" by (metis list_update_id)
    with Settled np gr show ?thesis by simp
  qed
qed

lemma waiting_settled: "\<forall>t \<in> set ts. t = Settled \<Longrightarrow> waiting e T ts = 0"
  by (induction ts) (simp_all add: waiting_def)

lemma count_processBatch:
  assumes apart: "catalogKeysApart e" and K: "K = ''unknown-'' @ T"
  shows "grownFrom T (map_of m K) (map_of (processBatch e order i batch m) K)
     \<and> storedCount (processBatch e order i batch m) K
         = storedCount m K + length (filter (unmatchedRequest e T) (enumerate i batch))"
proof -
  let ?reqs = "enumerate i batch"
  let ?I = "\<lambda>ts m'. noPendingSet K ts \<and> grownFrom T (map_of m K) (map_of m' K)
              \<and> storedCount m' K + waiting e T ts
                  = storedCount m K + length (filter (unmatchedRequest e T) ?reqs)"
  have "?I (finalTasks (stepTask e) order ?reqs m) (awaitAll (stepTask e) order ?reqs m)"
  proof (rule awaitAll_final_invariant)
    show "?I (map Searching ?reqs) m" by simp
  next
    fix ts m' j
    assume "?I ts m'" "j < length ts"
    then show "?I (ts[j := fst (stepTask e (ts ! j) m')]) (snd (stepTask e (ts ! j) m'))"
      using count_step[OF apart K, of j ts "map_of m K" m'] by simp
  qed
  moreover have "waiting e T (finalTasks (stepTask e) order ?reqs m) = 0"
    by (rule waiting_settled) (rule finalTasks_settled[OF settlesInTwo_stepTask])
  ultimately show ?thesis by (simp add: processBatch_def)
qed

text \<open>The records of one more pass: those of the batch, then those of the passes after it.\<close>

lemma processedRequests_0 [simp]: "processedRequests vh i 0 = []"
  by (simp add: processedRequests_def)

lemma processedRequests_Suc:
  "processedRequests vh i (Suc k) =
     enumerate i (take batchSize (drop i vh)) @ processedRequests vh (i + batchSize) k"
proof -
  let ?A = "enumerate i (take batchSize (drop i vh))"
  let ?B = "enumerate (i + batchSize) (drop (i + batchSize) vh)"
  have split: "enumerate i (drop i vh) = ?A @ ?B" by (rule enumerate_batches[symmetric])
  show ?thesis
  proof (cases "batchSize \<le> length (drop i vh)")
    case True
    then have "length ?A = batchSize" by simp
    then show ?thesis by (simp add: processedRequests_def split)
  next
    case False
    then have "?B = []" by simp
    moreover from False have "length ?A \<le> batchSize + k * batchSize" by simp
    ultimately show ?thesis by (simp add: processedRequests_def split)
  qed
qed

lemma afterBatches_step:
  "afterBatches e h vh startIndex (Suc k) i (m, c) =
     afterBatches e h vh startIndex k (i + batchSize)
       (processBatch e (resolveOrder h i) i (take batchSize (drop i vh)) m,
        snd (batchIteration e h vh startIndex i (m, c)))"
proof -
  obtain s tr where c: "c = (s, tr)" by (cases c)
  have "batchIteration e h vh startIndex i (m, s, tr) =
          (processBatch e (resolveOrder h i) i (take batchSize (drop i vh)) m,
           snd (batchIteration e h vh startIndex i (m, s, tr)))"
    using batchIteration_store[of e h vh startIndex i m s tr]
    by (metis prod.collapse)
  then show ?thesis unfolding c by (metis afterBatches.simps(2))
qed

lemma store_after_first_batch:
  "fst (afterBatches e h vh startIndex (Suc 0) i (m, c))
     = processBatch e (resolveOrder h i) i (take batchSize (drop i vh)) m"
  by (cases c) simp

lemma count_afterBatches:
  assumes apart: "catalogKeysApart e" and K: "K = ''unknown-'' @ T"
  shows "grownFrom T (map_of m K) (map_of (fst (afterBatches e h vh startIndex k i (m, c))) K)
     \<and> storedCount (fst (afterBatches e h vh startIndex k i (m, c))) K
         = storedCount m K + length (filter (unmatchedRequest e T) (processedRequests vh i k))"
proof (induction k arbitrary: i m c)
  case 0
  then show ?case by simp
next
  case (Suc k)
  let ?m1 = "processBatch e (resolveOrder h i) i (take batchSize (drop i vh)) m"
  let ?c1 = "snd (batchIteration e h vh startIndex i (m, c))"
  let ?mk = "fst (afterBatches e h vh startIndex k (i + batchSize) (?m1, ?c1))"
  from count_processBatch[OF apart K, of m "resolveOrder h i" i "take batchSize (drop i vh)"]
  have b: "grownFrom T (map_of m K) (map_of ?m1 K)"
    "storedCount ?m1 K = storedCount m K
       + length (filter (unmatchedRequest e T) (enumerate i (take batchSize (drop i vh))))"
    by simp_all
  from Suc.IH[where i = "i + batchSize" and m = ?m1 and c = ?c1]
  have r: "grownFrom T (map_of ?m1 K) (map_of ?mk K)"
    "storedCount ?mk K = storedCount ?m1 K
       + length (filter (unmatchedRequest e T) (processedRequests vh (i + batchSize) k))"
    by simp_all
  have "grownFrom T (map_of m K) (map_of ?mk K)" by (rule grownFrom_trans[OF b(1) r(1)])
  moreover have "storedCount ?mk K = storedCount m K
       + length (filter (unmatchedRequest e T) (processedRequests vh i (Suc k)))"
    using b(2) r(2) by (simp add: processedRequests_Suc)
  ultimately show ?case unfolding afterBatches_step by blast
qed

lemma distinct_afterBatches:
  assumes "distinct (map fst m)"
  shows "distinct (map fst (fst (afterBatches e h vh startIndex k i (m, c))))"
  using assms
proof (induction k arbitrary: i m c)
  case 0
  then show ?case by simp
next
  case (Suc k)
  show ?case unfolding afterBatches_step
    by (rule Suc.IH[OF distinct_processBatch[OF Suc.prems]])
qed

text \<open>
  The store a run returns is the store after some number of passes of the loop, and the
  store the host rebuilds from a checkpoint has one entry for each key.
\<close>

lemma run_is_some_batches:
  "\<exists>k. fst (snd (batchLoop e h vh startIndex i c)) = fst (afterBatches e h vh startIndex k i c)"
proof (induction e h vh startIndex i c rule: batchLoop.induct)
  case (1 e h vh startIndex i c)
  show ?case
  proof (cases "i < length vh \<and> \<not> processingCancelled (fst (snd c))")
    case True
    with "1.IH" obtain k where
      "fst (snd (batchLoop e h vh startIndex (i + batchSize) (batchIteration e h vh startIndex i c)))
         = fst (afterBatches e h vh startIndex k (i + batchSize) (batchIteration e h vh startIndex i c))"
      by blast
    then have "fst (snd (batchLoop e h vh startIndex i c))
                 = fst (afterBatches e h vh startIndex (Suc k) i c)"
      using True by (simp add: batchLoop.simps[of e h vh startIndex i])
    then show ?thesis by blast
  next
    case False
    then have "fst (snd (batchLoop e h vh startIndex i c)) = fst (afterBatches e h vh startIndex 0 i c)"
      by (auto simp: batchLoop.simps[of e h vh startIndex i])
    then show ?thesis by blast
  qed
qed

text \<open>Enough passes process every record from the start index on.\<close>

lemma runSchedule_Nil [simp]: "runSchedule step js [] m = ([], m)"
  by (induction js) simp_all

lemma processBatch_Nil [simp]: "processBatch e order i [] m = m"
  by (simp add: processBatch_def awaitAll_def)

lemma processAll_afterBatches:
  assumes "length vh \<le> i + k * batchSize"
  shows "processAll e h vh i m = fst (afterBatches e h vh startIndex k i (m, c))"
  using assms
proof (induction k arbitrary: i m c)
  case 0
  then show ?case by (simp add: processAll.simps[of e h vh i])
next
  case (Suc k)
  let ?m1 = "processBatch e (resolveOrder h i) i (take batchSize (drop i vh)) m"
  have rest: "processAll e h vh (i + batchSize) ?m1
        = fst (afterBatches e h vh startIndex k (i + batchSize)
                 (?m1, snd (batchIteration e h vh startIndex i (m, c))))"
    by (rule Suc.IH) (use Suc.prems in simp)
  show ?case
  proof (cases "i < length vh")
    case True
    then show ?thesis unfolding afterBatches_step using rest
      by (simp add: processAll.simps[of e h vh i])
  next
    case False
    then have "?m1 = m" by simp
    moreover from False have "processAll e h vh (i + batchSize) m = m"
      by (simp add: processAll.simps[of e h vh "i + batchSize"])
    moreover from False have "processAll e h vh i m = m"
      by (simp add: processAll.simps[of e h vh i])
    ultimately show ?thesis unfolding afterBatches_step using rest by simp
  qed
qed

lemma processedRequests_all:
  "length vh \<le> i + k * batchSize \<Longrightarrow> processedRequests vh i k = enumerate i (drop i vh)"
  by (simp add: processedRequests_def)

lemma distinct_seedMediaMap: "distinct (map fst (seedMediaMap partialItems))"
proof -
  have "distinct (map fst m) \<Longrightarrow>
          distinct (map fst (foldl (\<lambda>m item. mapSet (item_id item @ ''-'' @ item_type item) item m)
                               m partialItems))" for m
    by (induction partialItems arbitrary: m) (simp_all add: distinct_mapSet)
  then show ?thesis by (simp add: seedMediaMap_def)
qed

lemma apart_id: "item_id (apartFromCountAndDate it) = item_id it"
  by (simp add: apartFromCountAndDate_def)

lemma apart_title: "item_title (apartFromCountAndDate it) = item_title it"
  by (simp add: apartFromCountAndDate_def)

lemma apart_type: "item_type (apartFromCountAndDate it) = item_type it"
  by (simp add: apartFromCountAndDate_def)

lemma only_entry:
  "distinct (map fst m) \<Longrightarrow> map_of m K = Some it \<Longrightarrow> filter (\<lambda>p. fst p = K) m = [(K, it)]"
proof (induction m)
  case Nil
  then show ?case by simp
next
  case (Cons p m)
  show ?case
  proof (cases "fst p = K")
    case True
    with Cons.prems have "p = (K, it)" by (cases p) simp
    moreover have "\<forall>q \<in> set m. fst q \<noteq> K"
      using Cons.prems(1) True by (auto simp: image_iff)
    then have "filter (\<lambda>p. fst p = K) m = []"
      by (simp add: filter_empty_conv)
    ultimately show ?thesis by simp
  next
    case False
    with Cons show ?thesis by (cases p) auto
  qed
qed

lemma cancelled_run:
  "cancelled (fst (processViewingHistory e h vh startIndex existing s)) =
     fst (batchLoop e h vh startIndex startIndex
            (case existing of None \<Rightarrow> [] | Some m \<Rightarrow> m, resetCancellation s, []))"
  by (simp add: processViewingHistory_def Let_def split: prod.splits)

subsection \<open>Forty-one watches of one film\<close>

lemma heat_first:
  "settleRecord (stepTask exampleEnv) [] (j, watched ''Heat'' ''2024-01-01'')
     = [(''949-movie'', heatItem 1)]"
  by (simp add: settleRecord_def heatItem_def record_steps examples)

lemma heat_again:
  "settleRecord (stepTask exampleEnv) [(''949-movie'', heatItem (Suc c))]
     (j, watched ''Heat'' ''2024-01-01'')
     = [(''949-movie'', heatItem (Suc (Suc c)))]"
  by (simp add: settleRecord_def heatItem_def record_steps examples)

lemma heat_repeat:
  "foldl (settleRecord (stepTask exampleEnv)) [(''949-movie'', heatItem (Suc c))]
     (enumerate i (replicate n (watched ''Heat'' ''2024-01-01'')))
     = [(''949-movie'', heatItem (Suc c + n))]"
proof (induction n arbitrary: c i)
  case 0
  then show ?case by simp
next
  case (Suc n)
  show ?case using Suc.IH[where c = "Suc c" and i = "Suc i"] by (simp add: heat_again)
qed

lemma heat_batch:
  "processBatch exampleEnv [] i (replicate (Suc n) (watched ''Heat'' ''2024-01-01'')) []
     = [(''949-movie'', heatItem (Suc n))]"
  using heat_repeat[where c = 0 and i = "Suc i" and n = n]
  by (simp add: processBatch_sequential heat_first)

lemma heat_batch_more:
  "processBatch exampleEnv [] i (replicate n (watched ''Heat'' ''2024-01-01''))
     [(''949-movie'', heatItem (Suc c))]
     = [(''949-movie'', heatItem (Suc c + n))]"
  by (simp add: processBatch_sequential heat_repeat)

lemma report_heat:
  "reportProcessedItem exampleEnv [(''949-movie'', heatItem c)]
     (replicate n (watched ''Heat'' ''2024-01-01''))
     = replicate n (heatItem c)"
  by (induction n)
     (simp_all add: reportProcessedItem_def mapValues_def heatItem_def createMediaItem_def
        examples Let_def mediaTypeOf_def truthy_def)

subsection \<open>Forty-one titles the catalog does not know\<close>

lemma zs_inj [simp]: "zs a = zs b \<longleftrightarrow> a = b"
  by (simp add: zs_def replicate_eq_replicate)

lemma zs_unmatched [simp]: "searchMedia exampleEnv n (zs j) = []"
  by (simp add: zs_def exampleEnv_def)

lemma zs_no_dash: "zs a \<noteq> zs b @ ''-movie''"
proof
  assume eq: "zs a = zs b @ ''-movie''"
  have "last (zs a) = CHR ''z''" unfolding zs_def by (rule last_replicate) simp
  moreover have "last (zs b @ ''-movie'') = CHR ''e''" by simp
  ultimately show False using eq by simp
qed

lemma settle_zs:
  assumes "''unknown-'' @ zs j \<notin> fst ` set m"
  shows "settleRecord (stepTask exampleEnv) m (n, watched (zs j) ''2024-01-01'') = m @ [zsEntry j]"
proof -
  have "recordKey exampleEnv (n, watched (zs j) ''2024-01-01'') = ''unknown-'' @ zs j"
    by (simp add: recordKey_def watched_def exampleEnv_def zs_def)
  moreover have "\<not> mapHas m (''unknown-'' @ zs j)"
    using assms by (simp add: mapHas_keys)
  moreover have "freshItem exampleEnv (n, watched (zs j) ''2024-01-01'')
                   = createMinimalMediaItem (zs j) ''2024-01-01''"
    by (simp add: freshItem_def watched_def exampleEnv_def zs_def)
  ultimately show ?thesis
    using mapSet_fresh[OF assms] by (simp add: settleRecord_stepTask zsEntry_def)
qed

lemma fold_zs:
  assumes "\<And>j. ''unknown-'' @ zs j \<notin> fst ` set m0" "a \<le> b"
  shows "foldl (settleRecord (stepTask exampleEnv)) (m0 @ map zsEntry [a..<b])
     (enumerate i (map (\<lambda>j. watched (zs j) ''2024-01-01'') [b..<b + n]))
     = m0 @ map zsEntry [a..<b + n]"
  using assms(2)
proof (induction n arbitrary: b i)
  case 0
  then show ?case by simp
next
  case (Suc n)
  have fresh: "''unknown-'' @ zs b \<notin> fst ` set (m0 @ map zsEntry [a..<b])"
    using assms(1)[of b] by (auto simp: zsEntry_def)
  have "[b..<b + Suc n] = b # [Suc b..<Suc b + n]" by (simp add: upt_conv_Cons)
  moreover have "(m0 @ map zsEntry [a..<b]) @ [zsEntry b] = m0 @ map zsEntry [a..<Suc b]"
    using Suc.prems by simp
  ultimately show ?case
    using Suc.IH[where b = "Suc b" and i = "Suc i"] settle_zs[OF fresh, of i] Suc.prems
    by simp
qed

lemma drop_distinctTitles: "drop a (distinctTitles n) = map (\<lambda>j. watched (zs j) ''2024-01-01'') [a..<n]"
  by (simp add: distinctTitles_def drop_map drop_upt)

lemma uninterrupted_distinct:
  "processAll exampleEnv quietHost (distinctTitles n) 0 [] = map zsEntry [0..<n]"
proof -
  have q: "\<And>i. resolveOrder quietHost i = []" by (simp add: quietHost_def)
  show ?thesis
    using fold_zs[where ?m0.0 = "[]" and a = 0 and b = 0 and n = n and i = 0]
    by (simp add: processAll_sequential[OF q] distinctTitles_def)
qed

lemma seeded_keys: "''unknown-'' @ zs j \<notin> fst ` set (map zsSeeded [0..<n])"
  by (auto simp: zsSeeded_def zs_no_dash)

lemma resumed_distinct:
  assumes "a \<le> n"
  shows "processAll exampleEnv quietHost (distinctTitles n) a (map zsSeeded [0..<n])
           = map zsSeeded [0..<n] @ map zsEntry [a..<n]"
proof -
  have q: "\<And>i. resolveOrder quietHost i = []" by (simp add: quietHost_def)
  have "a + (n - a) = n" using assms by simp
  then show ?thesis
    using fold_zs[where ?m0.0 = "map zsSeeded [0..<n]" and a = a and b = a and n = "n - a" and i = a,
        OF seeded_keys]
    by (simp add: processAll_sequential[OF q] drop_distinctTitles)
qed

lemma seed_distinct:
  "foldl (\<lambda>m item. mapSet (item_id item @ ''-'' @ item_type item) item m) (map zsSeeded [0..<a])
     (map (\<lambda>j. snd (zsEntry j)) [a..<a + n])
     = map zsSeeded [0..<a + n]"
proof (induction n arbitrary: a)
  case 0
  then show ?case by simp
next
  case (Suc n)
  have fresh: "''unknown-'' @ zs a @ ''-movie'' \<notin> fst ` set (map zsSeeded [0..<a])"
    by (auto simp: zsSeeded_def)
  have "[a..<a + Suc n] = a # [Suc a..<Suc a + n]" by (simp add: upt_conv_Cons)
  moreover have "mapSet (''unknown-'' @ zs a @ ''-movie'') (snd (zsEntry a)) (map zsSeeded [0..<a])
      = map zsSeeded [0..<Suc a]"
    using mapSet_fresh[OF fresh] by (simp add: zsSeeded_def zsEntry_def)
  ultimately show ?case
    using Suc.IH[of "Suc a"] by (simp add: zsEntry_def createMinimalMediaItem_def)
qed

lemma seedMediaMap_distinct:
  "seedMediaMap (map (\<lambda>j. snd (zsEntry j)) [0..<n]) = map zsSeeded [0..<n]"
  using seed_distinct[of 0 n] by (simp add: seedMediaMap_def)

lemma quiet_iteration_state:
  "fst (snd (batchIteration e quietHost vh si i (m, c))) =
     (if i mod 10 = 0 \<and> si < i
      then saveProcessingState vh i
             (mapValues (processBatch e [] i (take batchSize (drop i vh)) m)) (fst c)
      else fst c)"
  by (cases c) (simp add: batchIteration_def Let_def quietHost_def)

lemma batch_distinct:
  assumes "a \<le> b" "b \<le> n"
  shows "processBatch exampleEnv [] a (take (b - a) (drop a (distinctTitles n))) (map zsEntry [0..<a])
           = map zsEntry [0..<b]"
proof -
  have "take (b - a) (drop a (distinctTitles n))
          = map (\<lambda>j. watched (zs j) ''2024-01-01'') [a..<a + (b - a)]"
    using assms by (simp add: drop_distinctTitles take_map take_upt)
  then show ?thesis
    using fold_zs[where ?m0.0 = "[]" and a = 0 and b = a and n = "b - a" and i = a] assms
    by (simp add: processBatch_sequential)
qed

lemma sorted_distinct:
  "sortBy (byWatchedDateDesc exampleEnv) (map (\<lambda>p. snd p) (map zsSeeded [0..<n] @ map zsEntry [a..<b]))
     = map (\<lambda>p. snd p) (map zsSeeded [0..<n] @ map zsEntry [a..<b])"
  by (rule sortBy_ties)
     (auto simp: byWatchedDateDesc_def zsSeeded_def zsEntry_def createMinimalMediaItem_def exampleEnv_def)

lemma upload_distinct:
  "map itemKey (mediaItems (fst (handleFileUpload exampleEnv quietHost (distinctTitles n) s)))
     = map (\<lambda>j. ''unknown-'' @ zs j) [0..<n]"
proof -
  have "sortBy (byWatchedDateDesc exampleEnv) (map snd (map zsEntry [0..<n])) = map snd (map zsEntry [0..<n])"
    by (rule sortBy_ties)
       (auto simp: byWatchedDateDesc_def zsEntry_def createMinimalMediaItem_def exampleEnv_def)
  then show ?thesis
    using processViewingHistory_uncancelled[OF neverCancels_quietHost, of exampleEnv "distinctTitles n" 0 None]
    by (simp add: handleFileUpload_def uninterrupted_distinct mapValues_def zsEntry_def comp_def)
qed

lemma reloadedDistinct_eq:
  "reloadedDistinct =
     saveProcessingState (distinctTitles 41) 40 (map (\<lambda>j. snd (zsEntry j)) [0..<41])
       (resetCancellation
          (saveProcessingState (distinctTitles 41) 0 [] (clearProcessingState idle)))"
proof -
  have b1: "processBatch exampleEnv [] 0 (take 40 (distinctTitles 41)) [] = map zsEntry [0..<40]"
    using batch_distinct[of 0 40 41] by (simp del: upt_rec_numeral)
  have b2: "processBatch exampleEnv [] 40 (take 40 (drop 40 (distinctTitles 41))) (map zsEntry [0..<40])
              = map zsEntry [0..<41]"
  proof -
    have "take 40 (drop 40 (distinctTitles 41)) = take (41 - 40) (drop 40 (distinctTitles 41))"
      by (simp add: distinctTitles_def)
    then show ?thesis using batch_distinct[of 40 41 41] by (simp del: upt_rec_numeral)
  qed
  have q: "\<And>i. resolveOrder quietHost i = []" by (simp add: quietHost_def)
  show ?thesis
    unfolding reloadedDistinct_def numeral_2_eq_2 afterBatches_step
    by (simp add: quiet_iteration_state batchSize_def q b1 b2 mapValues_def comp_def
             del: upt_rec_numeral)
qed

lemma resumed_distinct_run:
  "map_option (\<lambda>r. (cancelled (fst r), map itemKey (mediaItems (fst r))))
     (loadSavedData exampleEnv quietHost reloadedDistinct)
     = Some (False, map (\<lambda>j. ''unknown-'' @ zs j) [0..<41] @ [''unknown-'' @ zs 40])"
proof -
  let ?vh = "distinctTitles 41"
  have ld: "loadProcessingState reloadedDistinct
     = \<lparr> ps_viewingHistory = Some ?vh, ps_processedCount = 40,
         ps_partialItems = Some (map (\<lambda>j. snd (zsEntry j)) [0..<41]), ps_isProcessing = True \<rparr>"
    by (simp add: reloadedDistinct_eq loadProcessingState_def saveProcessingState_def
             del: upt_rec_numeral)
  have st: "processAll exampleEnv quietHost ?vh 40 (map zsSeeded [0..<41])
              = map zsSeeded [0..<41] @ map zsEntry [40..<41]"
    by (rule resumed_distinct) simp
  have run: "fst (processViewingHistory exampleEnv quietHost ?vh 40 (Some (map zsSeeded [0..<41])) reloadedDistinct)
      = \<lparr> mediaItems = map (\<lambda>p. snd p) (map zsSeeded [0..<41] @ map zsEntry [40..<41]),
          cancelled = False \<rparr>"
    using processViewingHistory_uncancelled[OF neverCancels_quietHost, of exampleEnv ?vh 40
        "Some (map zsSeeded [0..<41])" reloadedDistinct] sorted_distinct[of 41 40 41]
    by (simp add: st mapValues_def del: upt_rec_numeral)
  have len: "0 < length ?vh" by (simp add: distinctTitles_def)
  have last: "[40..<41] = [40::nat]" by simp
  have keys: "map itemKey (map (\<lambda>p. snd p) (map zsSeeded [0..<41] @ map zsEntry [40..<41]))
      = map (\<lambda>j. ''unknown-'' @ zs j) [0..<41] @ [''unknown-'' @ zs 40]"
    unfolding last by (simp add: zsSeeded_def zsEntry_def comp_def del: upt_rec_numeral)
  have l: "loadSavedData exampleEnv quietHost reloadedDistinct =
      Some (processViewingHistory exampleEnv quietHost ?vh 40 (Some (map zsSeeded [0..<41]))
              reloadedDistinct)"
    using len by (simp add: loadSavedData_def Let_def ld seedMediaMap_distinct del: upt_rec_numeral)
  show ?thesis unfolding l
    by (simp only: option.map run processingResult.select_convs keys)
qed

section \<open>Resuming from the checkpoint\<close>

lemma upload_first_batch:
  "batchIteration exampleEnv quietHost (replicate 41 (watched ''Heat'' ''2024-01-01'')) 0 0
     ([], s0, [])
   = ([(''949-movie'', heatItem 40)], s0,
      Progress 40 41 # replicate 40 (ItemProcessed (heatItem 40)))"
proof -
  have b: "processBatch exampleEnv [] 0 (replicate 40 (watched ''Heat'' ''2024-01-01'')) []
             = [(''949-movie'', heatItem 40)]"
    using heat_batch[where n = 39 and i = 0] by simp
  show ?thesis
    by (simp add: batchIteration_def Let_def quietHost_def batchSize_def b report_heat)
qed

lemma upload_second_batch:
  "batchIteration exampleEnv quietHost (replicate 41 (watched ''Heat'' ''2024-01-01'')) 0 40
     ([(''949-movie'', heatItem 40)], s0, tr)
   = ([(''949-movie'', heatItem 41)],
      saveProcessingState (replicate 41 (watched ''Heat'' ''2024-01-01'')) 40 [heatItem 41] s0,
      tr @ [Progress 41 41, ItemProcessed (heatItem 41)])"
proof -
  have b: "processBatch exampleEnv [] 40 [watched ''Heat'' ''2024-01-01'']
             [(''949-movie'', heatItem 40)]
             = [(''949-movie'', heatItem 41)]"
    using heat_batch_more[where n = "Suc 0" and c = 39 and i = 40] by simp
  have r: "reportProcessedItem exampleEnv [(''949-movie'', heatItem 41)] [watched ''Heat'' ''2024-01-01'']
             = [heatItem 41]"
    using report_heat[of 41 "Suc 0"] by simp
  show ?thesis
    by (simp add: batchIteration_def Let_def quietHost_def batchSize_def b r mapValues_def)
qed

lemma reloadedState_eq:
  "reloadedState =
     saveProcessingState (replicate 41 (watched ''Heat'' ''2024-01-01'')) 40 [heatItem 41]
       (resetCancellation
          (saveProcessingState (replicate 41 (watched ''Heat'' ''2024-01-01'')) 0 []
             (clearProcessingState idle)))"
  by (simp add: reloadedState_def numeral_2_eq_2 upload_first_batch upload_second_batch batchSize_def)

lemma uninterrupted_store:
  "processAll exampleEnv quietHost (replicate 41 (watched ''Heat'' ''2024-01-01'')) 0 []
     = [(''949-movie'', heatItem 41)]"
proof -
  have q: "\<And>i. resolveOrder quietHost i = []" by (simp add: quietHost_def)
  have "foldl (settleRecord (stepTask exampleEnv)) []
          (enumerate 0 (replicate 41 (watched ''Heat'' ''2024-01-01'')))
          = [(''949-movie'', heatItem 41)]"
    using heat_batch[where n = 40 and i = 0] by (simp add: processBatch_sequential)
  then show ?thesis by (simp add: processAll_sequential[OF q])
qed

lemma resumed_store:
  "processAll exampleEnv quietHost (replicate 41 (watched ''Heat'' ''2024-01-01'')) 40
     [(''949-movie'', heatItem 41)]
     = [(''949-movie'', heatItem 42)]"
proof -
  have q: "\<And>i. resolveOrder quietHost i = []" by (simp add: quietHost_def)
  show ?thesis using heat_repeat[where c = 40 and n = "Suc 0" and i = 40]
    by (simp add: processAll_sequential[OF q])
qed

lemma seed_heat: "seedMediaMap [heatItem 41] = [(''949-movie'', heatItem 41)]"
  by (simp add: seedMediaMap_def mapSet_def heatItem_def createMediaItem_def Let_def
        mediaTypeOf_def truthy_def examples)

text \<open>
  A second defect of the resume path: the host files every partial item under
  \<^verbatim>\<open>`${item.id}-${item.type}`\<close>, which for the item of an unmatched title is not the key
  \<^verbatim>\<open>processViewingItem\<close> looks up, so a further watch of that title adds a second item.
\<close>

lemma reseeded_unmatched_title_is_duplicated:
  "map fst (processBatch exampleEnv [] 40 [watched ''Zzz'' ''2024-01-05'']
              (seedMediaMap [createMinimalMediaItem ''Zzz'' ''2024-01-01'']))
     = [''unknown-Zzz-movie'', ''unknown-Zzz'']"
  by (simp add: processBatch_sequential settleRecord_def seedMediaMap_def record_steps examples)

text \<open>
  Claim C1 at its failing input: forty-one watches of one film. The uninterrupted run
  returns one item with forty-one watches. The checkpoint written after the second batch
  holds \<^verbatim>\<open>processedCount\<close> 40 together with partial items that already include the
  forty-first record; the run resumed from it processes that record again and returns
  forty-two watches.
\<close>

theorem resumed_run_counts_a_batch_twice:
  "fst (handleFileUpload exampleEnv quietHost (replicate 41 (watched ''Heat'' ''2024-01-01'')) idle)
     = \<lparr> mediaItems = [heatItem 41], cancelled = False \<rparr>
   \<and> loadProcessingState reloadedState
     = \<lparr> ps_viewingHistory = Some (replicate 41 (watched ''Heat'' ''2024-01-01'')),
         ps_processedCount = 40, ps_partialItems = Some [heatItem 41], ps_isProcessing = True \<rparr>
   \<and> map_option fst (loadSavedData exampleEnv quietHost reloadedState)
     = Some \<lparr> mediaItems = [heatItem 42], cancelled = False \<rparr>"
proof -
  let ?vh = "replicate 41 (watched ''Heat'' ''2024-01-01'')"
  have a: "fst (handleFileUpload exampleEnv quietHost ?vh idle)
             = \<lparr> mediaItems = [heatItem 41], cancelled = False \<rparr>"
    using processViewingHistory_uncancelled[OF neverCancels_quietHost, of exampleEnv ?vh 0 None]
    by (simp add: handleFileUpload_def uninterrupted_store mapValues_def sortBy_def)
  have b: "loadProcessingState reloadedState
     = \<lparr> ps_viewingHistory = Some ?vh, ps_processedCount = 40,
         ps_partialItems = Some [heatItem 41], ps_isProcessing = True \<rparr>"
    by (simp add: reloadedState_eq loadProcessingState_def saveProcessingState_def)
  have c: "fst (processViewingHistory exampleEnv quietHost ?vh 40
                  (Some [(''949-movie'', heatItem 41)]) reloadedState)
             = \<lparr> mediaItems = [heatItem 42], cancelled = False \<rparr>"
    using processViewingHistory_uncancelled[OF neverCancels_quietHost, of exampleEnv ?vh 40
        "Some [(''949-movie'', heatItem 41)]" reloadedState]
    by (simp add: resumed_store mapValues_def sortBy_def)
  have "map_option fst (loadSavedData exampleEnv quietHost reloadedState)
          = Some \<lparr> mediaItems = [heatItem 42], cancelled = False \<rparr>"
    by (simp add: loadSavedData_def Let_def b seed_heat c)
  with a b show ?thesis by simp
qed

section \<open>Watch counts and the fan-out\<close>

text \<open>
  Resumed without interleaving, a record is an upsert, and the count stored under a key
  grows by one with every record that maps to the key: in a run whose batches are not
  interleaved, the store counts exactly the records of each key.
\<close>

lemma count_settleRecord:
  assumes "counted m K"
  shows "counted (settleRecord (stepTask e) m r) K
     \<and> watches (settleRecord (stepTask e) m r) K
         = watches m K + (if recordKey e r = K then 1 else 0)"
proof (cases "recordKey e r = K")
  case True
  show ?thesis
  proof (cases "map_of m K")
    case None
    then show ?thesis using True
      by (simp add: settleRecord_stepTask mapHas_def map_of_mapSet counted_def watches_def)
  next
    case (Some it)
    with assms obtain c where "watchCount it = Some (Suc c)" by (auto simp: counted_def)
    with Some True show ?thesis
      by (simp add: settleRecord_stepTask mapHas_def map_of_updateExisting counted_def
            watches_def touchItem_def bumpCount_def)
  qed
next
  case False
  then have "map_of (settleRecord (stepTask e) m r) K = map_of m K"
    by (simp add: settleRecord_stepTask other_key_mapSet other_key_updateExisting)
  with assms False show ?thesis by (simp add: counted_def watches_def)
qed

lemma sequential_count:
  assumes "counted m K"
  shows "counted (foldl (settleRecord (stepTask e)) m items) K
     \<and> watches (foldl (settleRecord (stepTask e)) m items) K
         = watches m K + count_list (map (recordKey e) items) K"
  using assms
proof (induction items arbitrary: m)
  case Nil
  then show ?case by simp
next
  case (Cons r items)
  from count_settleRecord[OF Cons.prems, of e r]
  have c: "counted (settleRecord (stepTask e) m r) K"
    and w: "watches (settleRecord (stepTask e) m r) K
              = watches m K + (if recordKey e r = K then 1 else 0)"
    by simp_all
  from Cons.IH[OF c] w show ?case by simp
qed

lemma uninterleaved_run_counts_every_watch:
  assumes "\<And>i. resolveOrder h i = []"
  shows "watches (processAll e h vh startIndex []) K
           = count_list (map (recordKey e) (enumerate startIndex (drop startIndex vh))) K"
  using sequential_count[of "[]" K e "enumerate startIndex (drop startIndex vh)"]
  by (simp add: processAll_sequential[OF assms] counted_def watches_def)

lemma uninterleaved_lookups_count_both:
  "map (\<lambda>(k, it). (k, watchCount it, watchedDate it))
     (processBatch exampleEnv [] 0
        [watched ''Dark'' ''2024-01-05'', watched ''Dark'' ''2024-01-01''] [])
     = [(''70523-tv'', Some 2, ''2024-01-05'')]"
  by (simp add: processBatch_sequential settleRecord_def record_steps examples)

text \<open>
  Claim C2 at its failing input. Two records of one series share a batch. Both searches
  resolve before either \<^verbatim>\<open>createMediaItem\<close> does, so both records find the key
  absent, and the second \<^verbatim>\<open>set\<close> replaces the item of the first: two records map to
  the key and the item counts one watch.
\<close>

theorem interleaved_lookups_lose_a_watch:
  "recordKey exampleEnv (0, watched ''Dark'' ''2024-01-05'') = ''70523-tv''
   \<and> recordKey exampleEnv (1, watched ''Dark'' ''2024-01-01'') = ''70523-tv''
   \<and> map (\<lambda>it. (itemKey it, watchCount it, watchedDate it))
        (mediaItems (fst (processViewingHistory exampleEnv racingHost
           [watched ''Dark'' ''2024-01-05'', watched ''Dark'' ''2024-01-01''] 0 None idle)))
       = [(''70523-tv'', Some 1, ''2024-01-01'')]"
proof -
  let ?vh = "[watched ''Dark'' ''2024-01-05'', watched ''Dark'' ''2024-01-01'']"
  have b: "processBatch exampleEnv [0, Suc 0, 0, Suc 0] 0 ?vh []
             = [(''70523-tv'', createMediaItem exampleEnv 1 darkResult ''2024-01-01'')]"
    by (simp add: processBatch_def awaitAll_def inBatchOrder_def record_steps examples)
  have "processAll exampleEnv racingHost ?vh 0 []
          = [(''70523-tv'', createMediaItem exampleEnv 1 darkResult ''2024-01-01'')]"
    by (simp add: processAll.simps[of _ _ _ 0] processAll.simps[of _ _ _ 40] batchSize_def
          racingHost_def quietHost_def b)
  moreover have "neverCancels racingHost"
    by (simp add: neverCancels_def racingHost_def quietHost_def)
  ultimately show ?thesis
    using processViewingHistory_uncancelled[of racingHost exampleEnv ?vh 0 None idle]
    by (simp add: recordKey_def mapValues_def sortBy_def itemKey_def record_steps examples)
qed

section \<open>The date of the last watch\<close>

text \<open>\<^verbatim>\<open>updateExistingMediaItem\<close> leaves the later of the two dates.\<close>

lemma touchItem_latest:
  assumes "parseDate e wd = Some a" "parseDate e (watchedDate ex) = Some b"
  shows "parseDate e (watchedDate (touchItem e wd ex)) = Some (max a b)"
  using assms by (auto simp: touchItem_def dateGreater_def)

text \<open>
  The later listing sends both branches through \<^verbatim>\<open>updateExistingMediaItem\<close>: there the
  same two watches leave the later date.
\<close>

lemma current_listing_keeps_latest_date:
  "processAll exampleEnv quietHost
     [watched ''Zzz'' ''2024-01-01'', watched ''Heat'' ''2024-01-01'', watched ''Zzz'' ''2024-01-05'']
     0 []
   = [(''unknown-Zzz'', (createMinimalMediaItem ''Zzz'' ''2024-01-01'')
          \<lparr> watchCount := Some 2, watchedDate := ''2024-01-05'' \<rparr>),
      (''949-movie'', heatItem 1)]"
proof -
  have q: "\<And>i. resolveOrder quietHost i = []" by (simp add: quietHost_def)
  show ?thesis
    by (simp add: processAll_sequential[OF q] settleRecord_def heatItem_def record_steps examples)
qed

text \<open>
  Claim C3 at its failing input, on the first listing of \<^verbatim>\<open>processViewingHistory\<close>. An
  unmatched title is watched on the first and then on the fifth of January. The second
  record is merged into the item of the first, whose count becomes two, but the item
  keeps the first of January, although the runtime reads the fifth as the later date.
\<close>

theorem legacy_unmatched_repeat_keeps_first_date:
  "processViewingHistory_legacy exampleEnv (\<lambda>i. [])
     [watched ''Zzz'' ''2024-01-01'', watched ''Zzz'' ''2024-01-05'']
   = [(createMinimalMediaItem ''Zzz'' ''2024-01-01'') \<lparr> watchCount := Some 2 \<rparr>]
   \<and> dateGreater exampleEnv ''2024-01-05'' ''2024-01-01''"
proof -
  have "batchLoop_legacy exampleEnv (\<lambda>i. [])
          [watched ''Zzz'' ''2024-01-01'', watched ''Zzz'' ''2024-01-05''] 0 []
        = [(''unknown-Zzz'', (createMinimalMediaItem ''Zzz'' ''2024-01-01'') \<lparr> watchCount := Some 2 \<rparr>)]"
    by (simp add: batchLoop_legacy.simps awaitAll_sequential settleRecord_def processItem_legacy_def
          record_steps examples)
  then show ?thesis
    by (simp add: processViewingHistory_legacy_def mapValues_def sortBy_def dateGreater_def examples)
qed

section \<open>Deduplication\<close>

text \<open>
  A run that starts from an empty store, from any start index, under any order of
  resumption inside its batches and whatever the host cancels, returns at most as many
  items as the viewing history has records; and when the catalog's ids cannot be taken
  for the key of an unmatched title, no two returned items have the same merge key.
\<close>

lemma fresh_run_items_are_deduplicated:
  "length (mediaItems (fst (processViewingHistory e h vh startIndex None s))) \<le> length vh
   \<and> (catalogKeysApart e \<longrightarrow>
        distinct (map itemKey (mediaItems (fst (processViewingHistory e h vh startIndex None s)))))"
proof -
  let ?m = "fst (snd (batchLoop e h vh startIndex startIndex ([], resetCancellation s, [])))"
  let ?items = "mediaItems (fst (processViewingHistory e h vh startIndex None s))"
  have items: "mset ?items = mset (mapValues ?m)"
    using mediaItems_run[of e h vh startIndex None s] by simp
  have "length ?m \<le> length vh - startIndex"
    using batchLoop_length[of e h vh startIndex startIndex "[]"] by simp
  moreover have "length ?items = length (mapValues ?m)"
    using items by (rule mset_eq_length)
  ultimately have len: "length ?items \<le> length vh" by (simp add: mapValues_def)
  have dist: "distinct (map itemKey ?items)" if apart: "catalogKeysApart e"
  proof -
    have "distinct (map fst ?m)"
      by (rule batchLoop_invariant[where P = "\<lambda>m. distinct (map fst m)"])
         (simp_all add: distinct_processBatch)
    moreover have "filed ?m"
      by (rule batchLoop_invariant[where P = filed]) (simp_all add: filed_processBatch apart)
    ultimately have "distinct (map itemKey (mapValues ?m))" by (simp add: filed_keys)
    moreover have "mset (map itemKey ?items) = mset (map itemKey (mapValues ?m))"
      using items by simp
    ultimately show ?thesis using mset_eq_imp_distinct_iff by blast
  qed
  from len dist show ?thesis by blast
qed

text \<open>
  Claim C4 at its failing input, a run resumed from a checkpoint. Forty-one titles the
  catalog does not know are uploaded, each watched once; uninterrupted, the run returns
  forty-one items, one for each title. The page is reloaded in the pause after the second
  batch. The checkpoint holds \<^verbatim>\<open>processedCount\<close> 40 and all forty-one items. The host
  files each of them under \<^verbatim>\<open>`${item.id}-${item.type}`\<close>, which for the item of an
  unmatched title is not the key that \<^verbatim>\<open>processViewingItem\<close> looks up. The resumed run
  processes the forty-first record again, finds nothing under its key and creates a
  second item for it: it returns forty-two items for forty-one records, and the last
  two have the same merge key.
\<close>

theorem resumed_run_returns_an_item_twice:
  "length (distinctTitles 41) = 41
   \<and> map itemKey (mediaItems (fst (handleFileUpload exampleEnv quietHost (distinctTitles 41) idle)))
       = map (\<lambda>j. ''unknown-'' @ zs j) [0..<41]
   \<and> ps_processedCount (loadProcessingState reloadedDistinct) = 40
   \<and> map_option (map itemKey) (ps_partialItems (loadProcessingState reloadedDistinct))
       = Some (map (\<lambda>j. ''unknown-'' @ zs j) [0..<41])
   \<and> map_option (\<lambda>r. (cancelled (fst r), map itemKey (mediaItems (fst r))))
         (loadSavedData exampleEnv quietHost reloadedDistinct)
       = Some (False, map (\<lambda>j. ''unknown-'' @ zs j) [0..<41] @ [''unknown-'' @ zs 40])
   \<and> map_option (\<lambda>r. length (mediaItems (fst r)))
         (loadSavedData exampleEnv quietHost reloadedDistinct) = Some 42
   \<and> map_option (\<lambda>r. distinct (map itemKey (mediaItems (fst r))))
         (loadSavedData exampleEnv quietHost reloadedDistinct) = Some False"
proof -
  let ?keys = "map (\<lambda>j. ''unknown-'' @ zs j) [0..<41]"
  have len: "length (distinctTitles 41) = 41" by (simp add: distinctTitles_def)
  have up: "map itemKey (mediaItems (fst (handleFileUpload exampleEnv quietHost (distinctTitles 41) idle)))
       = ?keys"
    by (rule upload_distinct)
  have cnt: "ps_processedCount (loadProcessingState reloadedDistinct) = 40"
    by (simp add: reloadedDistinct_eq loadProcessingState_def saveProcessingState_def
             del: upt_rec_numeral)
  have part: "map_option (map itemKey) (ps_partialItems (loadProcessingState reloadedDistinct))
       = Some ?keys"
    by (simp add: reloadedDistinct_eq loadProcessingState_def saveProcessingState_def zsEntry_def
             comp_def del: upt_rec_numeral)
  note run = resumed_distinct_run
  then obtain r where r: "loadSavedData exampleEnv quietHost reloadedDistinct = Some r"
    and keys: "map itemKey (mediaItems (fst r)) = ?keys @ [''unknown-'' @ zs 40]"
    by (cases "loadSavedData exampleEnv quietHost reloadedDistinct") auto
  have "length (map itemKey (mediaItems (fst r))) = 42"
    unfolding keys by simp
  then have n: "length (mediaItems (fst r)) = 42" by simp
  have "''unknown-'' @ zs 40 \<in> set ?keys" by (simp del: upt_rec_numeral)
  then have dup: "\<not> distinct (map itemKey (mediaItems (fst r)))"
    unfolding keys by (simp del: upt_rec_numeral)
  from len up cnt part run n dup show ?thesis by (simp add: r del: upt_rec_numeral)
qed

section \<open>Cancellation during a run\<close>

lemma batchLoop_cancelled_at_check:
  assumes "i < length vh" "processingCancelled s"
  shows "batchLoop e h vh startIndex i (m, s, tr) = (True, m, s, tr)"
  using assms by (simp add: batchLoop.simps[of e h vh startIndex i])

lemma batchLoop_unroll:
  assumes "\<forall>j<k. \<not> processingCancelled (fst (snd (afterBatches e h vh startIndex j i c)))"
    and "i + k * batchSize < length vh"
  shows "batchLoop e h vh startIndex i c =
           batchLoop e h vh startIndex (i + k * batchSize) (afterBatches e h vh startIndex k i c)"
  using assms
proof (induction k arbitrary: i c)
  case 0
  then show ?case by simp
next
  case (Suc k)
  have i: "i < length vh" using Suc.prems(2) by simp
  have nc: "\<not> processingCancelled (fst (snd c))" using Suc.prems(1) by force
  let ?c = "batchIteration e h vh startIndex i c"
  have step: "batchLoop e h vh startIndex i c = batchLoop e h vh startIndex (i + batchSize) ?c"
    using i nc by (simp add: batchLoop.simps[of e h vh startIndex i])
  have 1: "\<forall>j<k. \<not> processingCancelled (fst (snd (afterBatches e h vh startIndex j (i + batchSize) ?c)))"
    using Suc.prems(1) by force
  have 2: "i + batchSize + k * batchSize < length vh"
    using Suc.prems(2) by simp
  show ?case using Suc.IH[OF 1 2] step by (simp add: add.assoc)
qed

text \<open>
  Claim C5, as the code has it. The flag is read once per batch, at the top of the loop.
  When the flag is clear at each of the first \<open>k\<close> checks, is set when the \<open>k\<close>-th batch
  and the pause after it are over, and records remain, then the run ends at that check: it
  returns the values of the store as that batch left them, unsorted, with cancelled = true,
  and its state and its trace are those reached after that batch: no further batch, no
  completion, no further callback. The batch in flight when the signal arrives still
  completes, and its progress and discovery callbacks still fire.
\<close>

theorem cancellation_honoured_at_batch_boundary:
  assumes "\<forall>j<k. \<not> processingCancelled (fst (snd
              (afterBatches e h vh startIndex j startIndex
                 (case existing of None \<Rightarrow> [] | Some m \<Rightarrow> m, resetCancellation s, []))))"
    and "processingCancelled (fst (snd
              (afterBatches e h vh startIndex k startIndex
                 (case existing of None \<Rightarrow> [] | Some m \<Rightarrow> m, resetCancellation s, []))))"
    and "startIndex + k * batchSize < length vh"
  shows "processViewingHistory e h vh startIndex existing s =
           (case afterBatches e h vh startIndex k startIndex
                   (case existing of None \<Rightarrow> [] | Some m \<Rightarrow> m, resetCancellation s, []) of
              (m, s', tr) \<Rightarrow> (\<lparr> mediaItems = mapValues m, cancelled = True \<rparr>, s', tr))"
proof -
  let ?c0 = "(case existing of None \<Rightarrow> [] | Some m \<Rightarrow> m, resetCancellation s, [])"
  obtain m s' tr where ck: "afterBatches e h vh startIndex k startIndex ?c0 = (m, s', tr)"
    by (cases "afterBatches e h vh startIndex k startIndex ?c0")
  have "batchLoop e h vh startIndex startIndex ?c0 =
          batchLoop e h vh startIndex (startIndex + k * batchSize) (m, s', tr)"
    using batchLoop_unroll[of k e h vh startIndex startIndex ?c0] assms(1,3) ck
    by simp
  also have "\<dots> = (True, m, s', tr)"
    using assms(2,3) ck by (simp add: batchLoop_cancelled_at_check)
  finally show ?thesis by (simp add: processViewingHistory_def ck)
qed

lemma cancel_first_batch:
  "batchIteration exampleEnv cancellingHost (replicate 41 (watched ''Heat'' ''2024-01-01'')) 0 0
     ([], resetCancellation idle, [])
   = ([(''949-movie'', heatItem 40)], cancelProcessing idle,
      CancelRequested # Progress 40 41 # replicate 40 (ItemProcessed (heatItem 40)))"
proof -
  have b: "processBatch exampleEnv [] 0 (replicate 40 (watched ''Heat'' ''2024-01-01'')) []
             = [(''949-movie'', heatItem 40)]"
    using heat_batch[where n = 39 and i = 0] by simp
  have c: "cancelProcessing (resetCancellation idle) = cancelProcessing idle"
    by (simp add: cancelProcessing_def resetCancellation_def clearProcessingState_def)
  show ?thesis
    by (simp add: batchIteration_def Let_def cancellingHost_def quietHost_def batchSize_def b c
          report_heat)
qed

text \<open>
  The theorem of claim C5 at forty-one watches of one film, the host signalling while the
  first batch is awaited: the forty callbacks of that batch fire after the signal, the
  forty-first record is never processed.
\<close>

theorem cancellation_honoured_at_batch_boundary_witness:
  "processViewingHistory exampleEnv cancellingHost (replicate 41 (watched ''Heat'' ''2024-01-01''))
     0 None idle
   = (\<lparr> mediaItems = [heatItem 40], cancelled = True \<rparr>, cancelProcessing idle,
      CancelRequested # Progress 40 41 # replicate 40 (ItemProcessed (heatItem 40)))"
  using cancellation_honoured_at_batch_boundary[of "Suc 0" exampleEnv cancellingHost
      "replicate 41 (watched ''Heat'' ''2024-01-01'')" 0 None idle]
  by (simp add: cancel_first_batch batchSize_def mapValues_def)

text \<open>
  Claim C5 as stated fails. The host signals cancellation while the only batch of a
  one-record run is awaited. After the signal the progress callback and the discovery
  callback fire, the loop ends without another check, completion runs, and the run
  returns cancelled = false.
\<close>

theorem cancel_in_last_batch:
  "processViewingHistory exampleEnv cancellingHost [watched ''Heat'' ''2024-01-01''] 0 None idle
     = (\<lparr> mediaItems = [heatItem 1], cancelled = False \<rparr>,
        cancelProcessing idle,
        [CancelRequested, Progress 1 1, ItemProcessed (heatItem 1)])"
proof -
  have b: "processBatch exampleEnv [] 0 [watched ''Heat'' ''2024-01-01''] []
             = [(''949-movie'', heatItem (Suc 0))]"
    using heat_batch[where n = 0 and i = 0] by simp
  have r: "reportProcessedItem exampleEnv [(''949-movie'', heatItem (Suc 0))]
             [watched ''Heat'' ''2024-01-01''] = [heatItem (Suc 0)]"
    using report_heat[of "Suc 0" "Suc 0"] by simp
  have it: "batchIteration exampleEnv cancellingHost [watched ''Heat'' ''2024-01-01''] 0 0
              ([], resetCancellation idle, [])
            = ([(''949-movie'', heatItem 1)], cancelProcessing idle,
               [CancelRequested, Progress 1 1, ItemProcessed (heatItem 1)])"
    by (simp add: batchIteration_def Let_def cancellingHost_def quietHost_def batchSize_def b r
          cancelProcessing_def clearProcessingState_def resetCancellation_def idle_def emptyStorage_def)
  have loop: "batchLoop exampleEnv cancellingHost [watched ''Heat'' ''2024-01-01''] 0 0
                ([], resetCancellation idle, [])
              = (False, [(''949-movie'', heatItem (Suc 0))], completeProcessing (cancelProcessing idle),
                 [CancelRequested, Progress 1 1, ItemProcessed (heatItem (Suc 0))])"
    by (simp add: batchLoop.simps it batchSize_def)
  have fin: "completeProcessing (cancelProcessing idle) = cancelProcessing idle"
    by (simp add: completeProcessing_def cancelProcessing_def clearProcessingState_def idle_def
          emptyStorage_def)
  show ?thesis
    by (simp add: processViewingHistory_def loop fin mapValues_def sortBy_def)
qed

section \<open>Cancellation and the checkpoint\<close>

text \<open>
  Claim C6, as the code has it. \<^verbatim>\<open>cancelProcessing\<close> sets the flag and removes the
  checkpoint: whatever was persisted, loading the processing state right after the
  signal finds no viewing history, no partial items and no active run.
\<close>

theorem cancel_clears_checkpoint:
  "processingCancelled (cancelProcessing s)
   \<and> loadProcessingState (cancelProcessing s) =
       \<lparr> ps_viewingHistory = None, ps_processedCount = 0, ps_partialItems = None,
         ps_isProcessing = False \<rparr>"
  by (simp add: cancelProcessing_def clearProcessingState_def loadProcessingState_def)

text \<open>
  Claim C6 as stated fails: a checkpoint that is present before the signal is gone
  after it.
\<close>

theorem cancel_changes_checkpoint:
  "loadProcessingState (saveProcessingState [watched ''Dark'' ''2024-01-01''] 40 [] idle)
     = \<lparr> ps_viewingHistory = Some [watched ''Dark'' ''2024-01-01''], ps_processedCount = 40,
         ps_partialItems = Some [], ps_isProcessing = True \<rparr>
   \<and> loadProcessingState
         (cancelProcessing (saveProcessingState [watched ''Dark'' ''2024-01-01''] 40 [] idle))
     = \<lparr> ps_viewingHistory = None, ps_processedCount = 0, ps_partialItems = None,
         ps_isProcessing = False \<rparr>"
  by (simp add: cancelProcessing_def clearProcessingState_def loadProcessingState_def
        saveProcessingState_def idle_def)

section \<open>Ingesting the rows\<close>

text \<open>
  The rows that pass \<^verbatim>\<open>item.Title && item.Date\<close> are the rows whose title and date
  are both present and not empty, and each becomes the record of that title and date.
\<close>

lemma complete_rows:
  "map toViewingItem (filter hasTitleAndDate rows)
     = [\<lparr> title = t, date = d, rawTitle = Some t, rawDate = Some d \<rparr>.
          row \<leftarrow> rows, Some t \<leftarrow> [Title row], Some d \<leftarrow> [Date row], t \<noteq> [] \<and> d \<noteq> []]"
  by (induction rows)
     (auto simp: hasTitleAndDate_def toViewingItem_def truthy_def split: option.splits)

text \<open>
  Claim C7, as the code has it. Once the library has parsed the file, ingestion is not an
  error. The listing without a cap yields, in input order, exactly one record for each
  row that has a title \<open>t\<close> and a date \<open>d\<close>, both not empty, and that record carries
  \<open>t\<close> and \<open>d\<close>; every other row is dropped, and no row with a title and a date is. The
  listing that ends with \<^verbatim>\<open>.slice(0, 50)\<close> yields the first fifty of these records and
  drops the rest.
\<close>

theorem ingestion_keeps_complete_rows:
  "parseNetflixCSV (PapaComplete rows)
     = Inr [\<lparr> title = t, date = d, rawTitle = Some t, rawDate = Some d \<rparr>.
             row \<leftarrow> rows, Some t \<leftarrow> [Title row], Some d \<leftarrow> [Date row], t \<noteq> [] \<and> d \<noteq> []]
   \<and> parseNetflixCSV_sliced (PapaComplete rows)
     = Inr (take 50 [\<lparr> title = t, date = d, rawTitle = Some t, rawDate = Some d \<rparr>.
             row \<leftarrow> rows, Some t \<leftarrow> [Title row], Some d \<leftarrow> [Date row], t \<noteq> [] \<and> d \<noteq> []])"
  by (simp only: parseNetflixCSV_def parseNetflixCSV_sliced_def papaOutcome.case complete_rows)

text \<open>
  The theorem of claim C7 at seven rows: two have a title and a date, the others lack
  the date, lack the title, have an empty title, have an empty date, or lack both.
\<close>

theorem ingestion_keeps_complete_rows_witness:
  "parseNetflixCSV (PapaComplete
     [\<lparr> Title = Some ''Dark'', Date = Some ''2024-01-05'' \<rparr>,
      \<lparr> Title = Some ''Heat'', Date = None \<rparr>,
      \<lparr> Title = None, Date = Some ''2024-01-01'' \<rparr>,
      \<lparr> Title = Some [], Date = Some ''2024-01-01'' \<rparr>,
      \<lparr> Title = Some ''Zzz'', Date = Some [] \<rparr>,
      \<lparr> Title = None, Date = None \<rparr>,
      \<lparr> Title = Some ''Heat'', Date = Some ''2024-01-01'' \<rparr>])
   = Inr [watched ''Dark'' ''2024-01-05'', watched ''Heat'' ''2024-01-01'']"
  using ingestion_keeps_complete_rows[of
     "[\<lparr> Title = Some ''Dark'', Date = Some ''2024-01-05'' \<rparr>,
      \<lparr> Title = Some ''Heat'', Date = None \<rparr>,
      \<lparr> Title = None, Date = Some ''2024-01-01'' \<rparr>,
      \<lparr> Title = Some [], Date = Some ''2024-01-01'' \<rparr>,
      \<lparr> Title = Some ''Zzz'', Date = Some [] \<rparr>,
      \<lparr> Title = None, Date = None \<rparr>,
      \<lparr> Title = Some ''Heat'', Date = Some ''2024-01-01'' \<rparr>]"]
  by (simp add: watched_def)

text \<open>
  Claim C7 as stated fails on the listing with the slice: of fifty-one rows that all have
  a title and a date, the fifty-first is dropped, where the listing without a cap keeps
  all of them.
\<close>

theorem sliced_ingestion_drops_complete_rows:
  "parseNetflixCSV_sliced
     (PapaComplete (replicate 51 \<lparr> Title = Some ''Dark'', Date = Some ''2024-01-01'' \<rparr>))
     = Inr (replicate 50 (watched ''Dark'' ''2024-01-01''))
   \<and> parseNetflixCSV
     (PapaComplete (replicate 51 \<lparr> Title = Some ''Dark'', Date = Some ''2024-01-01'' \<rparr>))
     = Inr (replicate 51 (watched ''Dark'' ''2024-01-01''))"
  by (simp add: parseNetflixCSV_def parseNetflixCSV_sliced_def hasTitleAndDate_def truthy_def
        toViewingItem_def watched_def)

section \<open>Unmatched titles\<close>

text \<open>
  The items a run returns are the values of the store after some number of passes of
  its loop, from the store it was given.
\<close>

lemma returned_items_are_a_store:
  "\<exists>k. mset (mediaItems (fst (processViewingHistory e h vh startIndex existing s))) =
         mset (mapValues (fst (afterBatches e h vh startIndex k startIndex
           (case existing of None \<Rightarrow> [] | Some m \<Rightarrow> m, resetCancellation s, []))))"
  using run_is_some_batches[of e h vh startIndex startIndex
      "(case existing of None \<Rightarrow> [] | Some m \<Rightarrow> m, resetCancellation s, [])"]
    mediaItems_run[of e h vh startIndex existing s]
  by auto

lemma unmatched_entry_after_batches:
  assumes apart: "catalogKeysApart e"
    and dist: "distinct (map fst m0)"
    and mem: "r \<in> set (processedRequests vh i k)"
    and un: "unmatchedRequest e T r"
    and K: "K = ''unknown-'' @ T"
  shows "\<exists>it. filter (\<lambda>p. fst p = K) (fst (afterBatches e h vh startIndex k i (m0, c))) = [(K, it)]
          \<and> watchCount it = Some (storedCount m0 K
               + length (filter (unmatchedRequest e T) (processedRequests vh i k)))
          \<and> (case map_of m0 K of
               None \<Rightarrow> item_id it = K \<and> item_title it = T \<and> item_type it = ''movie''
             | Some it0 \<Rightarrow> apartFromCountAndDate it = apartFromCountAndDate it0)"
proof -
  let ?m = "fst (afterBatches e h vh startIndex k i (m0, c))"
  let ?n = "length (filter (unmatchedRequest e T) (processedRequests vh i k))"
  from count_afterBatches[OF apart K, of m0 h vh startIndex k i c]
  have gr: "grownFrom T (map_of m0 K) (map_of ?m K)"
    and cnt: "storedCount ?m K = storedCount m0 K + ?n"
    by simp_all
  have "r \<in> set (filter (unmatchedRequest e T) (processedRequests vh i k))"
    using mem un by simp
  then have pos: "0 < ?n" by (rule length_pos_if_in_set)
  with cnt have "storedCount ?m K \<noteq> 0" by simp
  then obtain it where it: "map_of ?m K = Some it"
    by (cases "map_of ?m K") (simp_all add: storedCount_def)
  have changed: "map_of ?m K \<noteq> map_of m0 K"
  proof
    assume "map_of ?m K = map_of m0 K"
    then have "storedCount ?m K = storedCount m0 K" by (rule storedCount_cong)
    with cnt pos show False by simp
  qed
  from gr it changed obtain c' where
    base: "apartFromCountAndDate it =
             apartFromCountAndDate (case map_of m0 K of None \<Rightarrow> createMinimalMediaItem T []
                                    | Some it0 \<Rightarrow> it0)"
    and wc: "watchCount it = Some (Suc c')"
    by (auto simp: grownFrom_def)
  from wc it have "storedCount ?m K = Suc c'" by (simp add: storedCount_def)
  with cnt wc have count: "watchCount it = Some (storedCount m0 K + ?n)" by simp
  have fields: "case map_of m0 K of
               None \<Rightarrow> item_id it = K \<and> item_title it = T \<and> item_type it = ''movie''
             | Some it0 \<Rightarrow> apartFromCountAndDate it = apartFromCountAndDate it0"
  proof (cases "map_of m0 K")
    case None
    with base have "apartFromCountAndDate it = apartFromCountAndDate (createMinimalMediaItem T [])"
      by simp
    then have "item_id it = item_id (createMinimalMediaItem T [])"
      "item_title it = item_title (createMinimalMediaItem T [])"
      "item_type it = item_type (createMinimalMediaItem T [])"
      using apart_id[of it] apart_title[of it] apart_type[of it]
      by (simp_all add: apart_id apart_title apart_type)
    with None K show ?thesis by (simp add: createMinimalMediaItem_def)
  next
    case (Some it0)
    with base show ?thesis by simp
  qed
  have "distinct (map fst ?m)" by (rule distinct_afterBatches[OF dist])
  from only_entry[OF this it] count fields show ?thesis by blast
qed

text \<open>
  On the items returned by a run that starts from an empty store and that nobody
  cancels: exactly one of them has the id \<^verbatim>\<open>unknown-\<close> followed by the title, and it
  counts the records of that title whose search came back without a candidate.
\<close>

lemma fresh_complete_run_returns_one_item:
  assumes apart: "catalogKeysApart e" and quiet: "neverCancels h"
    and mem: "(j, item) \<in> set (enumerate startIndex (drop startIndex vh))"
    and un: "searchMedia e j (cleanTitle e (title item)) = []"
    and K: "K = ''unknown-'' @ title item"
  shows "\<exists>it. filter (\<lambda>x. item_id x = K)
                (mediaItems (fst (processViewingHistory e h vh startIndex None s))) = [it]
          \<and> item_title it = title item \<and> item_type it = ''movie''
          \<and> watchCount it = Some (length (filter (unmatchedRequest e (title item))
                                              (enumerate startIndex (drop startIndex vh))))"
proof -
  let ?k = "length vh"
  let ?m = "processAll e h vh startIndex []"
  let ?items = "mediaItems (fst (processViewingHistory e h vh startIndex None s))"
  have big: "length vh \<le> startIndex + ?k * batchSize" by (simp add: batchSize_def)
  have store: "?m = fst (afterBatches e h vh startIndex ?k startIndex ([], s, []))"
    by (rule processAll_afterBatches[OF big])
  have reqs: "processedRequests vh startIndex ?k = enumerate startIndex (drop startIndex vh)"
    by (rule processedRequests_all[OF big])
  have unm: "unmatchedRequest e (title item) (j, item)" using un by (simp add: unmatchedRequest_def)
  have empty: "distinct (map fst ([] :: mediaMap))" by simp
  from unmatched_entry_after_batches[OF apart empty _ unm K, of vh startIndex ?k h startIndex "(s, [])"]
    mem
  obtain it where one: "filter (\<lambda>p. fst p = K) ?m = [(K, it)]"
    and count: "watchCount it = Some (length (filter (unmatchedRequest e (title item))
                                              (enumerate startIndex (drop startIndex vh))))"
    and fields: "item_id it = K" "item_title it = title item" "item_type it = ''movie''"
    unfolding reqs store[symmetric] by (auto simp: storedCount_def)
  let ?r = "batchLoop e h vh startIndex startIndex ([], resetCancellation s, [])"
  have "fst ?r = False" by (rule batchLoop_uncancelled[OF quiet]) simp
  then have m: "fst (snd ?r) = ?m" by (rule batchLoop_completed)
  have dist: "distinct (map fst ?m)"
    unfolding m[symmetric]
    by (rule batchLoop_invariant[where P = "\<lambda>m. distinct (map fst m)"])
       (simp_all add: distinct_processBatch)
  have fil: "filed ?m"
    unfolding m[symmetric]
    by (rule batchLoop_invariant[where P = filed]) (simp_all add: filed_processBatch apart)
  have it: "map_of ?m K = Some it"
  proof -
    have "(K, it) \<in> set (filter (\<lambda>p. fst p = K) ?m)" by (simp only: one list.set_intros)
    then have "(K, it) \<in> set ?m" by simp
    then show ?thesis by (rule map_of_is_SomeI[OF dist])
  qed
  have pre: "prefix ''unknown-'' K" unfolding K by simp
  have key: "(item_id (snd p) = K) = (fst p = K)" if "p \<in> set ?m" for p
  proof
    assume "item_id (snd p) = K"
    with pre have "itemKey (snd p) = K" by (simp add: itemKey_def)
    moreover have "itemKey (snd p) = fst p" using fil that by (auto simp: filed_def)
    ultimately show "fst p = K" by simp
  next
    assume "fst p = K"
    then have "(K, snd p) \<in> set ?m" using that by (cases p) simp
    then have "map_of ?m K = Some (snd p)" by (rule map_of_is_SomeI[OF dist])
    with it fields(1) show "item_id (snd p) = K" by simp
  qed
  have "filter (\<lambda>x. item_id x = K) (mapValues ?m)
          = map snd (filter (\<lambda>p. item_id (snd p) = K) ?m)"
    by (simp add: mapValues_def filter_map comp_def)
  also have "\<dots> = map snd (filter (\<lambda>p. fst p = K) ?m)"
    by (rule arg_cong[where f = "map snd"], rule filter_cong) (simp_all add: key)
  also have "\<dots> = [it]" by (simp add: one)
  finally have "mset (filter (\<lambda>x. item_id x = K) (mapValues ?m)) = {#it#}" by simp
  then have "mset (filter (\<lambda>x. item_id x = K) ?items) = {#it#}"
    using mediaItems_run[of e h vh startIndex None s] m by simp
  then have "filter (\<lambda>x. item_id x = K) ?items = [it]"
    by (rule mset_single_iff[THEN iffD1])
  with fields count show ?thesis by blast
qed




text \<open>The store of that batch.\<close>

lemma failed_search_is_filed_as_unmatched:
  "map (\<lambda>p. (fst p, watchCount (snd p), watchedDate (snd p)))
     (fst (afterBatches flakyEnv quietHost
        [watched ''Zzz'' ''2024-01-01'', watched ''Heat'' ''2024-01-01'',
         watched ''Zzz'' ''2024-01-05'', watched ''Heat'' ''2024-01-05''] 0 1 0 ([], idle, [])))
   = [(''unknown-Zzz'', Some 2, ''2024-01-05''), (''unknown-Heat'', Some 1, ''2024-01-01''),
      (''949-movie'', Some 1, ''2024-01-05'')]"
proof -
  have q: "\<And>i. resolveOrder quietHost i = []" by (simp add: quietHost_def)
  show ?thesis
    by (simp add: store_after_first_batch q batchSize_def processBatch_sequential
          settleRecord_def record_steps flakyEnv_def examples)
qed


section \<open>Empty input\<close>

text \<open>
  Claim C9. On an empty viewing history a run returns no items and is not cancelled,
  and the statistics of no items are a result, not an error: every count is zero and the
  three histograms are empty.
\<close>

theorem empty_input_yields_nothing:
  "fst (processViewingHistory e h [] startIndex None s) = \<lparr> mediaItems = [], cancelled = False \<rparr>
   \<and> generateStats e [] =
       Inr \<lparr> totalWatched = 0, movieCount = 0, tvCount = 0,
             watchedByDay = Map.empty, watchedByMonth = Map.empty, watchedByYear = Map.empty,
             mostWatchedShows = [], continueWatchingShows = [] \<rparr>"
  by (simp add: processViewingHistory_def batchLoop.simps mapValues_def sortBy_def
        generateStats_def calculateWatchCountsByPeriod_def)

section \<open>A run resets the flag\<close>

text \<open>
  Claim C10. \<^verbatim>\<open>processViewingHistory\<close> resets the cancellation flag first: when the
  host does not signal cancellation during the run, then whatever the flag was before the
  call, the run is not cancelled and returns, sorted, the store reached by processing
  every batch from the start index on.
\<close>

theorem run_discards_earlier_cancellation:
  assumes "neverCancels h"
  shows "fst (processViewingHistory e h vh startIndex existing s) =
           \<lparr> mediaItems = sortBy (byWatchedDateDesc e)
               (mapValues (processAll e h vh startIndex
                  (case existing of None \<Rightarrow> [] | Some m \<Rightarrow> m))),
             cancelled = False \<rparr>"
  using assms by (rule processViewingHistory_uncancelled)

text \<open>
  The theorem of claim C10 at a run of three records that is entered with the flag set:
  all three are processed.
\<close>

theorem run_discards_earlier_cancellation_witness:
  "neverCancels quietHost
   \<and> processingCancelled (cancelProcessing idle)
   \<and> map (\<lambda>it. (itemKey it, watchCount it, watchedDate it))
        (mediaItems (fst (processViewingHistory exampleEnv quietHost
           [watched ''Heat'' ''2024-01-01'', watched ''Dark'' ''2024-01-05'', watched ''Heat'' ''2024-01-05'']
           0 None (cancelProcessing idle))))
       = [(''949-movie'', Some 2, ''2024-01-05''), (''70523-tv'', Some 1, ''2024-01-05'')]
   \<and> cancelled (fst (processViewingHistory exampleEnv quietHost
           [watched ''Heat'' ''2024-01-01'', watched ''Dark'' ''2024-01-05'', watched ''Heat'' ''2024-01-05'']
           0 None (cancelProcessing idle))) = False"
proof -
  have q: "\<And>i. resolveOrder quietHost i = []" by (simp add: quietHost_def)
  have "processAll exampleEnv quietHost
           [watched ''Heat'' ''2024-01-01'', watched ''Dark'' ''2024-01-05'', watched ''Heat'' ''2024-01-05'']
           0 []
        = [(''949-movie'', (createMediaItem exampleEnv 0 heatResult ''2024-01-01'')
               \<lparr> watchCount := Some 2, watchedDate := ''2024-01-05'' \<rparr>),
           (''70523-tv'', createMediaItem exampleEnv 1 darkResult ''2024-01-05'')]"
    by (simp add: processAll_sequential[OF q] settleRecord_def record_steps examples)
  then show ?thesis
    using run_discards_earlier_cancellation[OF neverCancels_quietHost, of exampleEnv
        "[watched ''Heat'' ''2024-01-01'', watched ''Dark'' ''2024-01-05'', watched ''Heat'' ''2024-01-05'']"
        0 None "cancelProcessing idle"]
    by (simp add: neverCancels_quietHost sortBy_def byWatchedDateDesc_def mapValues_def
          itemKey_def record_steps examples)
qed

end
